theory Spec2Isabelle
  imports Complex_Main "HOL-Library.Multiset"
begin

section \<open>JavaScript values used by the bill tracker\<close>

text \<open>
  A JavaScript number is a finite value, \<open>NaN\<close> or one of the two infinities. Finite
  values are modelled as reals: rounding of sums is not modelled, and no theorem below
  depends on a law of addition. \<open>Number.isInteger\<close>, the comparisons and \<open>Math.min\<close> /
  \<open>Math.max\<close> are the ones the sources call.
\<close>

datatype number = Finite real | NaN | PosInfinity | NegInfinity

fun isInteger :: "number \<Rightarrow> bool" where
  "isInteger (Finite r) = (of_int \<lfloor>r\<rfloor> = r)"
| "isInteger _ = False"

fun num_add :: "number \<Rightarrow> number \<Rightarrow> number" where
  "num_add (Finite a) (Finite b) = Finite (a + b)"
| "num_add NaN _ = NaN"
| "num_add _ NaN = NaN"
| "num_add PosInfinity NegInfinity = NaN"
| "num_add NegInfinity PosInfinity = NaN"
| "num_add PosInfinity _ = PosInfinity"
| "num_add _ PosInfinity = PosInfinity"
| "num_add NegInfinity _ = NegInfinity"
| "num_add _ NegInfinity = NegInfinity"

text \<open>\<open>a < b\<close> on numbers: false as soon as one side is \<open>NaN\<close>.\<close>

fun num_less :: "number \<Rightarrow> number \<Rightarrow> bool" where
  "num_less NaN _ = False"
| "num_less _ NaN = False"
| "num_less (Finite a) (Finite b) = (a < b)"
| "num_less (Finite _) PosInfinity = True"
| "num_less NegInfinity (Finite _) = True"
| "num_less NegInfinity PosInfinity = True"
| "num_less _ _ = False"


text \<open>
  A value read from a store document. \<open>JUndefined\<close> is what \<open>data?.field\<close> gives
  for a field the document does not have; \<open>JOther\<close> stands for every value that is
  neither a primitive nor \<open>null\<close> (timestamps, maps, arrays).
\<close>

datatype jsval = JUndefined | JNull | JBool bool | JNumber number | JString string | JOther

section \<open>Calendar dates\<close>

text \<open>
  A \<open>Date\<close> at local midnight is its calendar triple: the full year, the month counted
  from 0 and the day of the month. The sources build dates only with
  \<open>new Date(y, m, d)\<close> and read them only with \<open>getFullYear\<close>, \<open>getMonth\<close>,
  \<open>getDate\<close> and \<open>getTime\<close>. The limit of the time value (about 273000 years around
  1970) is not modelled.
\<close>

record date =
  year :: int
  month :: int
  day :: int

definition isLeap :: "int \<Rightarrow> bool" where
  "isLeap y = (y mod 4 = 0 \<and> (y mod 100 \<noteq> 0 \<or> y mod 400 = 0))"

definition daysInMonth :: "int \<Rightarrow> int \<Rightarrow> int" where
  "daysInMonth y m =
     (if m = 1 then (if isLeap y then 29 else 28)
      else if m = 3 \<or> m = 5 \<or> m = 8 \<or> m = 10 then 30
      else 31)"

definition valid_date :: "date \<Rightarrow> bool" where
  "valid_date dt =
     (0 \<le> month dt \<and> month dt \<le> 11 \<and> 1 \<le> day dt \<and> day dt \<le> daysInMonth (year dt) (month dt))"

definition prevYear :: "int \<Rightarrow> int \<Rightarrow> int" where
  "prevYear y m = (if m = 0 then y - 1 else y)"

definition prevMonth :: "int \<Rightarrow> int" where
  "prevMonth m = (if m = 0 then 11 else m - 1)"

definition nextYear :: "int \<Rightarrow> int \<Rightarrow> int" where
  "nextYear y m = (if m = 11 then y + 1 else y)"

definition nextMonth :: "int \<Rightarrow> int" where
  "nextMonth m = (if m = 11 then 0 else m + 1)"

text \<open>
  The date constructor carries a day that is outside the month into the neighbouring
  months, one month at a time: day 0 is the last day of the month before, day 30 of
  February is the first or second of March.
\<close>

function normDay :: "int \<Rightarrow> int \<Rightarrow> int \<Rightarrow> date" where
  "normDay y m d =
     (if d < 1 then
        normDay (prevYear y m) (prevMonth m) (d + daysInMonth (prevYear y m) (prevMonth m))
      else if daysInMonth y m < d then
        normDay (nextYear y m) (nextMonth m) (d - daysInMonth y m)
      else \<lparr>year = y, month = m, day = d\<rparr>)"
  by pat_completeness auto
termination
  by (relation "measure (\<lambda>(y, m, d). if d < 1 then nat (1 - d) + 32 else nat d)")
     (auto simp: daysInMonth_def)

declare normDay.simps [simp del]

text \<open>
  \<open>new Date(y, m, d)\<close> for integers: a year from 0 to 99 means 1900 + y, a month
  outside 0..11 carries into the year, then the day is carried.
\<close>

definition toFullYear :: "int \<Rightarrow> int" where
  "toFullYear y = (if 0 \<le> y \<and> y \<le> 99 then 1900 + y else y)"

definition newDate :: "int \<Rightarrow> int \<Rightarrow> int \<Rightarrow> date" where
  "newDate y m d = normDay (toFullYear y + m div 12) (m mod 12) d"

definition getFullYear :: "date \<Rightarrow> int" where
  "getFullYear dt = year dt"

definition getMonth :: "date \<Rightarrow> int" where
  "getMonth dt = month dt"

definition getDate :: "date \<Rightarrow> int" where
  "getDate dt = day dt"

definition startOfDay :: "date \<Rightarrow> date" where
  "startOfDay dt = newDate (getFullYear dt) (getMonth dt) (getDate dt)"

text \<open>
  \<open>getTime\<close>: milliseconds since the epoch, computed as for UTC midnight (the day
  number of the language standard). The local offset shifts every midnight by less than
  a day, so the order of two midnights is the order computed here; the sources only
  compare time values.
\<close>

definition dayFromYear :: "int \<Rightarrow> int" where
  "dayFromYear y =
     365 * (y - 1970) + (y - 1969) div 4 - (y - 1901) div 100 + (y - 1601) div 400"

definition daysBeforeMonth :: "int \<Rightarrow> int \<Rightarrow> int" where
  "daysBeforeMonth y m =
     (if m \<le> 0 then 0 else if m = 1 then 31
      else (if isLeap y then 1 else 0) +
        (if m = 2 then 59 else if m = 3 then 90 else if m = 4 then 120
         else if m = 5 then 151 else if m = 6 then 181 else if m = 7 then 212
         else if m = 8 then 243 else if m = 9 then 273 else if m = 10 then 304
         else 334))"

definition dayNumber :: "date \<Rightarrow> int" where
  "dayNumber dt = dayFromYear (year dt) + daysBeforeMonth (year dt) (month dt) + day dt - 1"

definition getTime :: "date \<Rightarrow> int" where
  "getTime dt = 86400000 * dayNumber dt"

section \<open>Strings\<close>

definition isDigit :: "char \<Rightarrow> bool" where
  "isDigit c = (48 \<le> (of_char c :: nat) \<and> (of_char c :: nat) \<le> 57)"

definition digitVal :: "char \<Rightarrow> int" where
  "digitVal c = int (of_char c) - 48"

text \<open>\<open>Number(s)\<close> on a string of decimal digits.\<close>

definition digitsToInt :: "string \<Rightarrow> int" where
  "digitsToInt s = foldl (\<lambda>acc c. 10 * acc + digitVal c) 0 s"

text \<open>The test \<open>/^\d{4}-\d{2}-\d{2}$/\<close>.\<close>

definition matchesYYYYMMDD :: "string \<Rightarrow> bool" where
  "matchesYYYYMMDD s =
     (length s = 10 \<and> isDigit (s ! 0) \<and> isDigit (s ! 1) \<and> isDigit (s ! 2) \<and> isDigit (s ! 3) \<and>
      s ! 4 = CHR ''-'' \<and> isDigit (s ! 5) \<and> isDigit (s ! 6) \<and>
      s ! 7 = CHR ''-'' \<and> isDigit (s ! 8) \<and> isDigit (s ! 9))"

text \<open>
  \<open>parseYYYYMMDD\<close> (the same text in the dashboard and in the calendar). After the
  pattern test the three parts are digit strings, so \<open>Number\<close> gives integers and the
  three \<open>Number.isInteger\<close> tests of the source always pass.
\<close>

definition parseYYYYMMDD :: "string \<Rightarrow> date option" where
  "parseYYYYMMDD dueDate =
     (if \<not> matchesYYYYMMDD dueDate then None
      else
        let y = digitsToInt (take 4 dueDate);
            m = digitsToInt (take 2 (drop 5 dueDate));
            d = digitsToInt (take 2 (drop 8 dueDate));
            dt = newDate y (m - 1) d
        in if getFullYear dt \<noteq> y \<or> getMonth dt \<noteq> m - 1 \<or> getDate dt \<noteq> d then None
           else Some dt)"

text \<open>\<open>String(n)\<close> for an integer, \<open>padStart(2, "0")\<close> and \<open>trim\<close>.\<close>

definition digitChar :: "nat \<Rightarrow> char" where
  "digitChar n = ''0123456789'' ! n"

fun natToString :: "nat \<Rightarrow> string" where
  "natToString n =
     (if n < 10 then [digitChar n] else natToString (n div 10) @ [digitChar (n mod 10)])"

declare natToString.simps [simp del]

definition intToString :: "int \<Rightarrow> string" where
  "intToString i = (if i < 0 then CHR ''-'' # natToString (nat (- i)) else natToString (nat i))"

definition padStart2 :: "string \<Rightarrow> string" where
  "padStart2 s = replicate (2 - length s) (CHR ''0'') @ s"



text \<open>\<open>getYYYYMM\<close> of the calendar, \<open>getCurrentYYYYMM\<close> of the store module and
  \<open>currentYYYYMM\<close> of the dashboard are the same expression.\<close>

definition getYYYYMM :: "date \<Rightarrow> string" where
  "getYYYYMM dt = intToString (getFullYear dt) @ ''-'' @ padStart2 (intToString (getMonth dt + 1))"

definition getCurrentYYYYMM :: "date \<Rightarrow> string" where
  "getCurrentYYYYMM dt = intToString (getFullYear dt) @ ''-'' @ padStart2 (intToString (getMonth dt + 1))"

section \<open>Bills\<close>

datatype bill_status = Paid | Unpaid

datatype bill_recurrence = Monthly

datatype chip_status = ChipPaid | ChipUnpaid | ChipOverdue

text \<open>
  Modelled from the spec: the field \<open>autopay\<close> of a bill, a boolean that is false by
  default. The dashboard reads it only as \<open>bill.autopay !== true\<close>; the declaration of
  \<open>BillListItem\<close> in the repository is the one of the store module, which has no such
  field, so the bills of \<open>listenToBills\<close> have none. The other fields are those of
  that declaration. \<open>None\<close> is \<open>null\<close> or \<open>undefined\<close>; the sources never tell the
  two apart.
\<close>

record bill =
  billId :: string
  name :: string
  amount :: number
  dueDate :: "string option"
  status :: bill_status
  recurrence :: "bill_recurrence option"
  dayOfMonth :: "number option"
  paidForMonth :: "string option"
  autopay :: "bool option"

text \<open>A string is truthy when it is neither absent nor empty.\<close>

definition truthy :: "string option \<Rightarrow> bool" where
  "truthy s = (case s of None \<Rightarrow> False | Some t \<Rightarrow> t \<noteq> [])"

section \<open>The dashboard\<close>

text \<open>
  The dashboard reads the clock once per render: \<open>now\<close>. Every function below takes
  it as its first argument where the source reads \<open>nowYear\<close>, \<open>nowMonth\<close>,
  \<open>currentYYYYMM\<close> or \<open>todayStart\<close>.
\<close>

definition nowYear :: "date \<Rightarrow> int" where
  "nowYear now = getFullYear now"

definition nowMonth :: "date \<Rightarrow> int" where
  "nowMonth now = getMonth now"

definition currentYYYYMM :: "date \<Rightarrow> string" where
  "currentYYYYMM now = intToString (nowYear now) @ ''-'' @ padStart2 (intToString (nowMonth now + 1))"

definition todayStart :: "date \<Rightarrow> date" where
  "todayStart now = startOfDay now"

text \<open>\<open>getDerivedStatus\<close>, with the period it compares against as a parameter.\<close>

definition getDerivedStatus :: "string \<Rightarrow> bill \<Rightarrow> bill_status" where
  "getDerivedStatus period b =
     (if recurrence b = Some Monthly then
        (if paidForMonth b = Some period then Paid else Unpaid)
      else status b)"


text \<open>The integer an integral number stands for.\<close>

fun intOf :: "number \<Rightarrow> int" where
  "intOf (Finite r) = \<lfloor>r\<rfloor>"
| "intOf _ = 0"

definition getRecurringDueDateInCurrentMonth :: "date \<Rightarrow> number option \<Rightarrow> date option" where
  "getRecurringDueDateInCurrentMonth now dayOfMonth' =
     (case dayOfMonth' of
        None \<Rightarrow> None
      | Some n \<Rightarrow>
          if \<not> isInteger n then None
          else
            let lastDay = getDate (newDate (nowYear now) (nowMonth now + 1) 0);
                clampedDay = min (max (intOf n) 1) lastDay
            in Some (newDate (nowYear now) (nowMonth now) clampedDay))"

text \<open>The due date \<open>isOverdue\<close> resolves (its local constant \<open>dueDate\<close>).\<close>

definition resolveDueDate :: "date \<Rightarrow> bill \<Rightarrow> date option" where
  "resolveDueDate now b =
     (if recurrence b = Some Monthly then getRecurringDueDateInCurrentMonth now (dayOfMonth b)
      else if truthy (dueDate b) then parseYYYYMMDD (the (dueDate b))
      else None)"

definition isOverdue :: "date \<Rightarrow> bill \<Rightarrow> bool" where
  "isOverdue now b =
     (if getDerivedStatus (currentYYYYMM now) b \<noteq> Unpaid then False
      else case resolveDueDate now b of
             None \<Rightarrow> False
           | Some due \<Rightarrow> getTime (startOfDay due) < getTime (todayStart now))"

subsection \<open>Sorting\<close>


definition positive :: "number \<Rightarrow> bool" where
  "positive r = num_less (Finite 0) r"

fun insertBy :: "('a \<Rightarrow> 'a \<Rightarrow> number) \<Rightarrow> 'a \<Rightarrow> 'a list \<Rightarrow> 'a list" where
  "insertBy cmp x [] = [x]"
| "insertBy cmp x (y # ys) = (if positive (cmp x y) then y # insertBy cmp x ys else x # y # ys)"

definition sortBy :: "('a \<Rightarrow> 'a \<Rightarrow> number) \<Rightarrow> 'a list \<Rightarrow> 'a list" where
  "sortBy cmp xs = foldr (insertBy cmp) xs []"





subsection \<open>Totals\<close>

record totals =
  dueThisMonthTotal :: number
  paidThisMonthTotal :: number
  overdueTotal :: number

definition oneTimeIsCurrentMonth :: "date \<Rightarrow> bill \<Rightarrow> bool" where
  "oneTimeIsCurrentMonth now b =
     (let isRecurring = (recurrence b = Some Monthly);
          oneTimeDueDate = (if \<not> isRecurring \<and> truthy (dueDate b) then parseYYYYMMDD (the (dueDate b)) else None)
      in case oneTimeDueDate of
           None \<Rightarrow> False
         | Some dt \<Rightarrow> getMonth dt = nowMonth now \<and> getFullYear dt = nowYear now)"

definition totalsStep :: "date \<Rightarrow> totals \<Rightarrow> bill \<Rightarrow> totals" where
  "totalsStep now t b =
     (let isRecurring = (recurrence b = Some Monthly);
          recurringDueDate = (if isRecurring then getRecurringDueDateInCurrentMonth now (dayOfMonth b) else None);
          t1 = (if isRecurring then
                  (let t' = (if recurringDueDate \<noteq> None
                             then t\<lparr>dueThisMonthTotal := num_add (dueThisMonthTotal t) (amount b)\<rparr> else t)
                   in if paidForMonth b = Some (currentYYYYMM now)
                      then t'\<lparr>paidThisMonthTotal := num_add (paidThisMonthTotal t') (amount b)\<rparr> else t')
                else if oneTimeIsCurrentMonth now b then
                  (let t' = t\<lparr>dueThisMonthTotal := num_add (dueThisMonthTotal t) (amount b)\<rparr>
                   in if status b = Paid
                      then t'\<lparr>paidThisMonthTotal := num_add (paidThisMonthTotal t') (amount b)\<rparr> else t')
                else t)
      in if isOverdue now b then t1\<lparr>overdueTotal := num_add (overdueTotal t1) (amount b)\<rparr> else t1)"

definition computeTotals :: "date \<Rightarrow> bill list \<Rightarrow> totals" where
  "computeTotals now bills =
     foldl (totalsStep now)
       \<lparr>dueThisMonthTotal = Finite 0, paidThisMonthTotal = Finite 0, overdueTotal = Finite 0\<rparr> bills"

text \<open>
  The older dashboard kept in the repository computes a total of the same name another
  way: \<open>isDueThisMonth\<close> and a reduction over the sorted bills that skips paid bills.
\<close>

definition isDueThisMonth :: "date \<Rightarrow> string option \<Rightarrow> bool" where
  "isDueThisMonth now d =
     (if \<not> truthy d \<or> \<not> matchesYYYYMMDD (the d) then False
      else
        let y = digitsToInt (take 4 (the d));
            m = digitsToInt (take 2 (drop 5 (the d)));
            dd = digitsToInt (take 2 (drop 8 (the d)));
            dt = newDate y (m - 1) dd
        in if getFullYear dt \<noteq> y \<or> getMonth dt \<noteq> m - 1 \<or> getDate dt \<noteq> dd then False
           else getMonth dt = nowMonth now \<and> getFullYear dt = nowYear now)"

definition dueThisMonthTotal_old :: "date \<Rightarrow> bill list \<Rightarrow> number" where
  "dueThisMonthTotal_old now bills =
     foldl (\<lambda>total b.
          if getDerivedStatus (currentYYYYMM now) b \<noteq> Unpaid then total
          else if recurrence b = Some Monthly then num_add total (amount b)
          else if isDueThisMonth now (dueDate b) then num_add total (amount b) else total)
       (Finite 0) bills"

section \<open>The store\<close>

text \<open>
  A bill document is a map from field names to values, found under its family and its
  own id (\<open>doc(db, "families", familyId, "bills", billId)\<close>). \<open>updateDoc\<close> writes the
  given fields over a document that exists and is rejected when there is none.
\<close>

type_synonym doc = "string \<rightharpoonup> jsval"

type_synonym doc_ref = "string \<times> string"


definition serverTimestamp :: jsval where
  "serverTimestamp = JOther"



text \<open>\<open>data?.field\<close>.\<close>

definition getField :: "doc \<Rightarrow> string \<Rightarrow> jsval" where
  "getField d k = (case d k of None \<Rightarrow> JUndefined | Some v \<Rightarrow> v)"


subsection \<open>\<open>toggleBillStatus\<close>\<close>





subsection \<open>\<open>listenToBills\<close>\<close>

fun num_le :: "number \<Rightarrow> number \<Rightarrow> bool" where
  "num_le NaN _ = False"
| "num_le _ NaN = False"
| "num_le (Finite a) (Finite b) = (a \<le> b)"
| "num_le NegInfinity _ = True"
| "num_le _ PosInfinity = True"
| "num_le _ _ = False"

text \<open>The function \<open>listenToBills\<close> maps over the documents of a snapshot.\<close>

definition toBillListItem :: "string \<Rightarrow> doc \<Rightarrow> bill" where
  "toBillListItem docId data =
     (let rawName = getField data ''name'';
          rawAmount = getField data ''amount'';
          rawDueDate = getField data ''dueDate'';
          rawStatus = getField data ''status'';
          rawRecurrence = getField data ''recurrence'';
          rawDayOfMonth = getField data ''dayOfMonth'';
          rawPaidForMonth = getField data ''paidForMonth''
      in \<lparr>billId = docId,
          name = (case rawName of JString t \<Rightarrow> t | _ \<Rightarrow> []),
          amount = (case rawAmount of JNumber n \<Rightarrow> n | _ \<Rightarrow> Finite 0),
          dueDate = (case rawDueDate of JString t \<Rightarrow> Some t | _ \<Rightarrow> None),
          status = (if rawStatus = JString ''paid'' then Paid else Unpaid),
          recurrence = (if rawRecurrence = JString ''monthly'' then Some Monthly else None),
          dayOfMonth = (case rawDayOfMonth of
                          JNumber n \<Rightarrow>
                            if isInteger n \<and> num_le (Finite 1) n \<and> num_le n (Finite 31) then Some n else None
                        | _ \<Rightarrow> None),
          paidForMonth = (case rawPaidForMonth of JString t \<Rightarrow> Some t | _ \<Rightarrow> None),
          autopay = None\<rparr>)"

text \<open>What the subscription hands to \<open>onChange\<close> for a snapshot of (id, data) pairs.\<close>

definition listenToBills :: "(string \<times> doc) list \<Rightarrow> bill list" where
  "listenToBills docs = map (\<lambda>billDoc. toBillListItem (fst billDoc) (snd billDoc)) docs"

section \<open>Autopay\<close>

text \<open>
  \<open>runAutopay\<close> is an asynchronous function: it runs until it awaits a write, and goes
  on when that write has settled. Meanwhile the effect may run again, for a new bill
  list, and start another scan. The state is the set of processed keys, the writes
  attempted so far, and the scans that are waiting for a write: for each of them the
  clock and the family of its render, the key it will mark when the write settles, the
  bills it has not looked at yet, and its flag \<open>cancelled\<close>.
\<close>

record attempt =
  at_key :: string
  at_ref :: doc_ref
  at_fields :: "(string \<times> jsval) list"

record pending_scan =
  ps_now :: date
  ps_familyId :: string
  ps_key :: string
  ps_rest :: "bill list"
  ps_cancelled :: bool

record autopay_state =
  processedKeys :: "string set"
  attempts :: "attempt list"
  inFlight :: "pending_scan list"

text \<open>
  The tests of one loop iteration that do not read the processed keys: \<open>None\<close> where
  the source says \<open>continue\<close>, otherwise the key and the fields to write.
\<close>

definition autopayTarget :: "date \<Rightarrow> bill \<Rightarrow> (string \<times> (string \<times> jsval) list) option" where
  "autopayTarget now b =
     (if autopay b \<noteq> Some True then None
      else if recurrence b = Some Monthly then
        (if paidForMonth b = Some (currentYYYYMM now) then None
         else case getRecurringDueDateInCurrentMonth now (dayOfMonth b) of
                None \<Rightarrow> None
              | Some recurringDueDate \<Rightarrow>
                  if getTime (startOfDay recurringDueDate) > getTime (todayStart now) then None
                  else Some (billId b @ '':'' @ currentYYYYMM now,
                             [(''paidForMonth'', JString (currentYYYYMM now)),
                              (''updatedAt'', serverTimestamp)]))
      else if status b = Paid \<or> \<not> truthy (dueDate b) then None
      else case parseYYYYMMDD (the (dueDate b)) of
             None \<Rightarrow> None
           | Some oneTimeDueDate \<Rightarrow>
               if getTime (startOfDay oneTimeDueDate) > getTime (todayStart now) then None
               else Some (billId b @ '':'' @ the (dueDate b),
                          [(''status'', JString ''paid''), (''updatedAt'', serverTimestamp)]))"

text \<open>
  The loop of \<open>runAutopay\<close> from the head of an iteration, for a scan that is not
  cancelled, up to its next \<open>await\<close> or its end. At the \<open>await\<close> the write has been
  issued, the key is not marked yet, and the scan waits with the bills that are left.
  The flag \<open>cancelled\<close> is set only by the cleanup of the effect, which cannot run
  during this stretch, so the test at the head of the loop is made where a scan starts
  and where it goes on after a write.
\<close>

fun runAutopay :: "date \<Rightarrow> string \<Rightarrow> bill list \<Rightarrow> autopay_state \<Rightarrow> autopay_state" where
  "runAutopay now familyId [] s = s"
| "runAutopay now familyId (b # bs) s =
     (case autopayTarget now b of
        None \<Rightarrow> runAutopay now familyId bs s
      | Some target \<Rightarrow>
          if fst target \<in> processedKeys s then runAutopay now familyId bs s
          else
            s\<lparr>attempts := attempts s @
                  [\<lparr>at_key = fst target, at_ref = (familyId, billId b), at_fields = snd target\<rparr>],
              inFlight := inFlight s @
                  [\<lparr>ps_now = now, ps_familyId = familyId, ps_key = fst target, ps_rest = bs,
                    ps_cancelled = False\<rparr>]\<rparr>)"

text \<open>
  The write of the scan at place \<open>i\<close> of the waiting scans settles, with success or
  not: the failure is caught and ignored, \<open>finally\<close> marks the key, and the loop goes
  to its next iteration, where it returns if the scan was cancelled meanwhile.
\<close>

definition settleWrite :: "nat \<Rightarrow> bool \<Rightarrow> autopay_state \<Rightarrow> autopay_state" where
  "settleWrite i ok s =
     (if i < length (inFlight s) then
        (let p = inFlight s ! i;
             s' = s\<lparr>processedKeys := insert (ps_key p) (processedKeys s),
                    inFlight := take i (inFlight s) @ drop (Suc i) (inFlight s)\<rparr>
         in if ps_cancelled p then s'
            else runAutopay (ps_now p) (ps_familyId p) (ps_rest p) s')
      else s)"

text \<open>
  The effect, run for a new bill list (or a new family): the cleanup of its run before
  sets \<open>cancelled\<close> for the scan that run started, then the guard, then a new scan. The
  other effect clears the keys when the family changes.
\<close>

definition autopayEffect :: "date \<Rightarrow> string option \<Rightarrow> bill list \<Rightarrow> autopay_state \<Rightarrow> autopay_state" where
  "autopayEffect now familyId bills s =
     (let s' = s\<lparr>inFlight := map (\<lambda>p. p\<lparr>ps_cancelled := True\<rparr>) (inFlight s)\<rparr>
      in if \<not> truthy familyId \<or> bills = [] then s'
         else runAutopay now (the familyId) bills s')"

definition clearProcessedKeys :: "autopay_state \<Rightarrow> autopay_state" where
  "clearProcessedKeys s = s\<lparr>processedKeys := {}\<rparr>"

text \<open>
  A session: what happens while the family stays the same, starting from no key, no
  attempt and no waiting scan. Either the bill list changes, and the effect runs with the
  clock of that render, or the write of a waiting scan settles.
\<close>

datatype session_event = BillsChanged date "bill list" | WriteSettled nat bool

definition sessionStart :: autopay_state where
  "sessionStart = \<lparr>processedKeys = {}, attempts = [], inFlight = []\<rparr>"

definition sessionStep :: "string option \<Rightarrow> autopay_state \<Rightarrow> session_event \<Rightarrow> autopay_state" where
  "sessionStep familyId s ev =
     (case ev of
        BillsChanged now bills \<Rightarrow> autopayEffect now familyId bills s
      | WriteSettled i ok \<Rightarrow> settleWrite i ok s)"

definition runSession :: "string option \<Rightarrow> session_event list \<Rightarrow> autopay_state" where
  "runSession familyId events = foldl (sessionStep familyId) sessionStart events"

section \<open>The calendar\<close>

record calendar_event =
  ev_billId :: string
  ev_dayOfMonth :: int
  ev_status :: chip_status
  ev_bill :: bill
  ev_name :: string
  ev_amount :: number
  ev_label :: string
  ev_sortTime :: int

definition isMonthInFuture :: "int \<Rightarrow> int \<Rightarrow> int \<Rightarrow> int \<Rightarrow> bool" where
  "isMonthInFuture viewYear viewMonth todayYear todayMonth =
     (viewYear > todayYear \<or> (viewYear = todayYear \<and> viewMonth > todayMonth))"

definition getRecurringDueDateInViewedMonth :: "int \<Rightarrow> int \<Rightarrow> number option \<Rightarrow> date option" where
  "getRecurringDueDateInViewedMonth y m dayOfMonth' =
     (case dayOfMonth' of
        None \<Rightarrow> None
      | Some n \<Rightarrow>
          if \<not> isInteger n then None
          else
            let lastDay = getDate (newDate y (m + 1) 0);
                clamped = min (max (intOf n) 1) lastDay
            in Some (newDate y m clamped))"

text \<open>
  The label of an event is the name, a bullet and the amount with two decimals.
  \<open>Number.prototype.toFixed\<close> is a parameter \<open>toFixed2\<close>.
\<close>

definition eventLabel :: "(number \<Rightarrow> string) \<Rightarrow> bill \<Rightarrow> string" where
  "eventLabel toFixed2 b =
     name b @ '' '' @ [CHR 0xE2, CHR 0x80, CHR 0xA2] @ '' $'' @ toFixed2 (amount b)"

text \<open>
  The body of the loop over the bills: the event of one bill in the viewed month, or
  \<open>None\<close> where the source says \<open>continue\<close>. \<open>today\<close> is \<open>startOfDay(now)\<close>.
\<close>

definition billEvent :: "(number \<Rightarrow> string) \<Rightarrow> date \<Rightarrow> date \<Rightarrow> bill \<Rightarrow> calendar_event option" where
  "billEvent toFixed2 viewedMonthDate today b =
     (let viewedYear = getFullYear viewedMonthDate;
          viewedMonth = getMonth viewedMonthDate;
          viewedYYYYMM = getYYYYMM viewedMonthDate;
          todayYear = getFullYear today;
          todayMonth = getMonth today
      in if recurrence b = Some Monthly then
           (case getRecurringDueDateInViewedMonth viewedYear viewedMonth (dayOfMonth b) of
              None \<Rightarrow> None
            | Some recurringDueDate \<Rightarrow>
                let isPaid = (paidForMonth b = Some viewedYYYYMM);
                    isFutureMonth = isMonthInFuture viewedYear viewedMonth todayYear todayMonth;
                    overdue = (\<not> isPaid \<and> \<not> isFutureMonth \<and>
                               getTime (startOfDay recurringDueDate) < getTime today)
                in Some \<lparr>ev_billId = billId b,
                         ev_dayOfMonth = getDate recurringDueDate,
                         ev_status = (if isPaid then ChipPaid else if overdue then ChipOverdue else ChipUnpaid),
                         ev_bill = b,
                         ev_name = name b,
                         ev_amount = amount b,
                         ev_label = eventLabel toFixed2 b,
                         ev_sortTime = getTime recurringDueDate\<rparr>)
         else if \<not> truthy (dueDate b) then None
         else case parseYYYYMMDD (the (dueDate b)) of
                None \<Rightarrow> None
              | Some oneTimeDueDate \<Rightarrow>
                  if getFullYear oneTimeDueDate \<noteq> viewedYear \<or> getMonth oneTimeDueDate \<noteq> viewedMonth
                  then None
                  else
                    let isPaid = (status b = Paid);
                        overdue = (\<not> isPaid \<and> getTime (startOfDay oneTimeDueDate) < getTime today)
                    in Some \<lparr>ev_billId = billId b,
                             ev_dayOfMonth = getDate oneTimeDueDate,
                             ev_status = (if isPaid then ChipPaid else if overdue then ChipOverdue else ChipUnpaid),
                             ev_bill = b,
                             ev_name = name b,
                             ev_amount = amount b,
                             ev_label = eventLabel toFixed2 b,
                             ev_sortTime = getTime oneTimeDueDate\<rparr>)"

text \<open>\<open>events.set(day, existing)\<close> after \<open>existing.push(event)\<close>.\<close>

definition pushEvent :: "(int \<rightharpoonup> calendar_event list) \<Rightarrow> calendar_event \<Rightarrow> (int \<rightharpoonup> calendar_event list)" where
  "pushEvent events e =
     events(ev_dayOfMonth e \<mapsto> (case events (ev_dayOfMonth e) of None \<Rightarrow> [] | Some existing \<Rightarrow> existing) @ [e])"

definition collectEvents ::
  "(number \<Rightarrow> string) \<Rightarrow> date \<Rightarrow> date \<Rightarrow> bill list \<Rightarrow> (int \<rightharpoonup> calendar_event list)" where
  "collectEvents toFixed2 viewedMonthDate today bills =
     foldl (\<lambda>events b. case billEvent toFixed2 viewedMonthDate today b of
                          None \<Rightarrow> events
                        | Some e \<Rightarrow> pushEvent events e)
       Map.empty bills"

definition compareEvents :: "(string \<Rightarrow> string \<Rightarrow> int) \<Rightarrow> calendar_event \<Rightarrow> calendar_event \<Rightarrow> number" where
  "compareEvents lc a b =
     (if ev_sortTime a \<noteq> ev_sortTime b then Finite (of_int (ev_sortTime a - ev_sortTime b))
      else Finite (of_int (lc (ev_label a) (ev_label b))))"

definition eventsByDay ::
  "(string \<Rightarrow> string \<Rightarrow> int) \<Rightarrow> (number \<Rightarrow> string) \<Rightarrow> date \<Rightarrow> date \<Rightarrow> bill list
     \<Rightarrow> (int \<rightharpoonup> calendar_event list)" where
  "eventsByDay lc toFixed2 viewedMonthDate now bills =
     (\<lambda>d. map_option (sortBy (compareEvents lc))
             (collectEvents toFixed2 viewedMonthDate (startOfDay now) bills d))"

section \<open>Vocabulary of the specification\<close>

text \<open>One date is before another one, at day granularity.\<close>

definition date_before :: "date \<Rightarrow> date \<Rightarrow> bool" where
  "date_before a b =
     (year a < year b \<or> (year a = year b \<and>
        (month a < month b \<or> (month a = month b \<and> day a < day b))))"

text \<open>The three numbers \<open>parseYYYYMMDD\<close> reads from a string in the pattern.\<close>

definition yearPart :: "string \<Rightarrow> int" where
  "yearPart s = digitsToInt (take 4 s)"

definition monthPart :: "string \<Rightarrow> int" where
  "monthPart s = digitsToInt (take 2 (drop 5 s))"

definition dayPart :: "string \<Rightarrow> int" where
  "dayPart s = digitsToInt (take 2 (drop 8 s))"

section \<open>Scenarios of the specification\<close>

text \<open>The bills and the clock of the scenarios A to E of the specification.\<close>

definition scenarioA :: bill where
  "scenarioA = \<lparr>billId = ''a'', name = ''Rent'', amount = Finite 900, dueDate = None, status = Unpaid,
     recurrence = Some Monthly, dayOfMonth = Some (Finite 31), paidForMonth = None, autopay = None\<rparr>"

definition scenarioB :: bill where
  "scenarioB = \<lparr>billId = ''b'', name = ''Gas'', amount = Finite 30, dueDate = Some ''2024-03-05'',
     status = Unpaid, recurrence = None, dayOfMonth = None, paidForMonth = None, autopay = None\<rparr>"

definition scenarioC :: bill where
  "scenarioC = \<lparr>billId = ''c'', name = ''Power'', amount = Finite 60, dueDate = None, status = Unpaid,
     recurrence = Some Monthly, dayOfMonth = Some (Finite 15), paidForMonth = Some ''2024-03'',
     autopay = None\<rparr>"

definition scenarioD :: bill where
  "scenarioD = \<lparr>billId = ''d'', name = ''Water'', amount = Finite 20, dueDate = None, status = Unpaid,
     recurrence = Some Monthly, dayOfMonth = Some (Finite 1), paidForMonth = None,
     autopay = Some True\<rparr>"

definition scenarioE :: bill where
  "scenarioE = \<lparr>billId = ''e'', name = ''Gift'', amount = Finite 10, dueDate = None, status = Unpaid,
     recurrence = None, dayOfMonth = None, paidForMonth = None, autopay = None\<rparr>"

definition march10 :: date where
  "march10 = \<lparr>year = 2024, month = 2, day = 10\<rparr>"

definition april5 :: date where
  "april5 = \<lparr>year = 2024, month = 3, day = 5\<rparr>"

section \<open>Which bills are due this month\<close>

text \<open>
  A bill is due in the current month when the due date the dashboard resolves for it
  exists and lies in the month and year of the clock.
\<close>

definition dueInCurrentMonth :: "date \<Rightarrow> bill \<Rightarrow> bool" where
  "dueInCurrentMonth now b =
     (case resolveDueDate now b of
        None \<Rightarrow> False
      | Some dt \<Rightarrow> getMonth dt = nowMonth now \<and> getFullYear dt = nowYear now)"

text \<open>
  The same with the reading "a monthly bill always has a due date in the current month".
\<close>

definition dueInCurrentMonth_monthlyAlways :: "date \<Rightarrow> bill \<Rightarrow> bool" where
  "dueInCurrentMonth_monthlyAlways now b =
     (if recurrence b = Some Monthly then True else dueInCurrentMonth now b)"

text \<open>The sum of the amounts of the bills of a list that satisfy a test, in list order.\<close>

definition sumAmounts :: "(bill \<Rightarrow> bool) \<Rightarrow> bill list \<Rightarrow> number" where
  "sumAmounts P bills = foldl num_add (Finite 0) (map amount (filter P bills))"

section \<open>The events of a bill list\<close>

text \<open>
  The events of the bills of a list, one for each bill that has one, in list order; and
  those of them that fall on a day.
\<close>

definition eventsOfBills :: "(number \<Rightarrow> string) \<Rightarrow> date \<Rightarrow> date \<Rightarrow> bill list \<Rightarrow> calendar_event list" where
  "eventsOfBills toFixed2 viewedMonthDate today bills =
     List.map_filter (billEvent toFixed2 viewedMonthDate today) bills"

definition eventsOnDay :: "int \<Rightarrow> calendar_event list \<Rightarrow> calendar_event list" where
  "eventsOnDay d es = filter (\<lambda>e. ev_dayOfMonth e = d) es"

text \<open>Stand-ins for the two library functions, for the examples.\<close>

definition compareByLength :: "string \<Rightarrow> string \<Rightarrow> int" where
  "compareByLength a b = int (length a) - int (length b)"

definition noDecimals :: "number \<Rightarrow> string" where
  "noDecimals n = []"

definition february2023 :: date where
  "february2023 = \<lparr>year = 2023, month = 1, day = 1\<rparr>"

definition february2024 :: date where
  "february2024 = \<lparr>year = 2024, month = 1, day = 1\<rparr>"

definition april2024 :: date where
  "april2024 = \<lparr>year = 2024, month = 3, day = 1\<rparr>"

section \<open>What a toggle is asked to settle\<close>



definition march2024 :: date where
  "march2024 = \<lparr>year = 2024, month = 2, day = 1\<rparr>"




section \<open>What the sort needs of the name comparison\<close>


section \<open>The key and the settlement of a bill\<close>

text \<open>
  The key of a bill for the autopay scan: the bill id with the current period for a
  monthly bill, with the due date string for a one-time bill. The settlement: the
  current period as \<open>paidForMonth\<close> for a monthly bill, the status "paid" for a one-time
  bill.
\<close>

definition autopayKey :: "date \<Rightarrow> bill \<Rightarrow> string" where
  "autopayKey now b =
     billId b @ '':'' @ (if recurrence b = Some Monthly then currentYYYYMM now else the (dueDate b))"

definition settlement :: "date \<Rightarrow> bill \<Rightarrow> (string \<times> jsval) list" where
  "settlement now b =
     (if recurrence b = Some Monthly
      then [(''paidForMonth'', JString (currentYYYYMM now)), (''updatedAt'', serverTimestamp)]
      else [(''status'', JString ''paid''), (''updatedAt'', serverTimestamp)])"

text \<open>The bill is eligible: autopay is on, its derived status for the current period is
  \<open>Unpaid\<close>, and its resolved due date is today or before.\<close>

definition autopayEligible :: "date \<Rightarrow> bill \<Rightarrow> bool" where
  "autopayEligible now b =
     (autopay b = Some True \<and> getDerivedStatus (currentYYYYMM now) b = Unpaid
      \<and> (\<exists>due. resolveDueDate now b = Some due \<and> \<not> date_before (todayStart now) due))"

text \<open>
  The scans of a run of events do not overlap: whenever the bill list changes, no scan
  is waiting for a write.
\<close>

fun scansDoNotOverlap :: "string option \<Rightarrow> autopay_state \<Rightarrow> session_event list \<Rightarrow> bool" where
  "scansDoNotOverlap familyId s [] = True"
| "scansDoNotOverlap familyId s (ev # evs) =
     ((case ev of BillsChanged now bills \<Rightarrow> inFlight s = [] | WriteSettled i ok \<Rightarrow> True)
      \<and> scansDoNotOverlap familyId (sessionStep familyId s ev) evs)"

section \<open>Facts about dates\<close>

lemma div_succ: "0 < k \<Longrightarrow> (x + 1) div k = x div k + (if (x + 1) mod k = 0 then 1 else (0::int))"
proof -
  assume k: "0 < k"
  have x: "x + 1 = k * (x div k) + (x mod k + 1)" by simp
  have r: "0 \<le> x mod k" "x mod k < k" using k by simp_all
  show ?thesis
  proof (cases "x mod k + 1 = k")
    case True
    then have "x + 1 = k * (x div k + 1)" using x by (simp add: algebra_simps)
    then show ?thesis using k by simp
  next
    case False
    then have lt: "x mod k + 1 < k" using r by linarith
    have "(x + 1) div k = x div k + (x mod k + 1) div k"
      using k by (subst x) (simp only: div_mult_self4)
    moreover have "(x mod k + 1) div k = 0" using lt r by (simp add: div_pos_pos_trivial)
    moreover have "(x + 1) mod k = (x mod k + 1) mod k" by (simp add: mod_add_left_eq)
    moreover have "(x mod k + 1) mod k = x mod k + 1" using lt r by (simp add: mod_pos_pos_trivial)
    ultimately show ?thesis using r by simp
  qed
qed

lemma m4: "((y - 1968) mod 4 = 0) = (y mod 4 = (0::int))"
proof -
  have "y - 1968 = y + (- 492) * 4" by simp
  then have "(y - 1968) mod 4 = y mod 4" by (simp only: mod_mult_self1)
  then show ?thesis by simp
qed

lemma m100: "((y - 1900) mod 100 = 0) = (y mod 100 = (0::int))"
proof -
  have "y - 1900 = y + (- 19) * 100" by simp
  then have "(y - 1900) mod 100 = y mod 100" by (simp only: mod_mult_self1)
  then show ?thesis by simp
qed

lemma m400: "((y - 1600) mod 400 = 0) = (y mod 400 = (0::int))"
proof -
  have "y - 1600 = y + (- 4) * 400" by simp
  then have "(y - 1600) mod 400 = y mod 400" by (simp only: mod_mult_self1)
  then show ?thesis by simp
qed

lemma m400_100: "y mod 400 = 0 \<Longrightarrow> y mod 100 = (0::int)"
proof -
  assume a: "y mod 400 = 0"
  have "(100::int) dvd 400" by simp
  then have "y mod 400 mod 100 = y mod 100" by (rule mod_mod_cancel)
  then show ?thesis using a by simp
qed

lemma m100_4: "y mod 100 = 0 \<Longrightarrow> y mod 4 = (0::int)"
proof -
  assume a: "y mod 100 = 0"
  have "(4::int) dvd 100" by simp
  then have "y mod 100 mod 4 = y mod 4" by (rule mod_mod_cancel)
  then show ?thesis using a by simp
qed

lemma dayFromYear_step: "dayFromYear (y + 1) = dayFromYear y + (if isLeap y then 366 else 365)"
proof -
  define A where "A = (y - 1969) div 4"
  define B where "B = (y - 1901) div 100"
  define C where "C = (y - 1601) div 400"
  have e: "y + 1 - 1969 = y - 1969 + 1" "y + 1 - 1901 = y - 1901 + 1" "y + 1 - 1601 = y - 1601 + 1"
    "y - 1969 + 1 = y - 1968" "y - 1901 + 1 = y - 1900" "y - 1601 + 1 = y - 1600"
    by simp_all
  have a: "(y + 1 - 1969) div 4 = A + (if y mod 4 = 0 then 1 else 0)"
    unfolding e(1) A_def using div_succ [of 4 "y - 1969"] unfolding e(4) m4 by simp
  have b: "(y + 1 - 1901) div 100 = B + (if y mod 100 = 0 then 1 else 0)"
    unfolding e(2) B_def using div_succ [of 100 "y - 1901"] unfolding e(5) m100 by simp
  have c: "(y + 1 - 1601) div 400 = C + (if y mod 400 = 0 then 1 else 0)"
    unfolding e(3) C_def using div_succ [of 400 "y - 1601"] unfolding e(6) m400 by simp
  have l: "dayFromYear y = 365 * (y - 1970) + A - B + C"
    unfolding dayFromYear_def A_def B_def C_def by (rule refl)
  have r: "dayFromYear (y + 1) = 365 * (y + 1 - 1970) + (A + (if y mod 4 = 0 then 1 else 0))
       - (B + (if y mod 100 = 0 then 1 else 0)) + (C + (if y mod 400 = 0 then 1 else 0))"
    unfolding dayFromYear_def a b c by (rule refl)
  show ?thesis
  proof (cases "y mod 4 = 0")
    case False
    then have n100: "y mod 100 \<noteq> 0" using m100_4 [of y] by auto
    then have "y mod 400 \<noteq> 0" using m400_100 [of y] by auto
    with n100 have "y mod 100 \<noteq> 0" "y mod 400 \<noteq> 0" by auto
    then show ?thesis unfolding l r isLeap_def using False by simp
  next
    case T4: True
    show ?thesis
    proof (cases "y mod 100 = 0")
      case False
      then have "y mod 400 \<noteq> 0" using m400_100 [of y] by auto
      then show ?thesis unfolding l r isLeap_def using False T4 by simp
    next
      case T100: True
      show ?thesis unfolding l r isLeap_def using T4 T100 by simp
    qed
  qed
qed

lemma dayFromYear_mono: "y1 < y2 \<Longrightarrow> dayFromYear y1 + 365 \<le> dayFromYear y2"
proof (induction y2 rule: int_gr_induct)
  case base
  then show ?case by (simp add: dayFromYear_step)
next
  case (step i)
  then show ?case by (simp add: dayFromYear_step)
qed

lemma month_cases:
  "0 \<le> m \<Longrightarrow> m \<le> 11 \<Longrightarrow>
   m = 0 \<or> m = 1 \<or> m = 2 \<or> m = 3 \<or> m = 4 \<or> m = 5 \<or> m = 6 \<or> m = 7 \<or> m = 8 \<or> m = 9 \<or>
   m = 10 \<or> m = (11::int)"
  by arith

lemma daysInMonth_bounds: "28 \<le> daysInMonth y m" "daysInMonth y m \<le> 31"
  unfolding daysInMonth_def by simp_all

lemma daysBeforeMonth_step:
  assumes "0 \<le> m" "m \<le> 10"
  shows "daysBeforeMonth y (m + 1) = daysBeforeMonth y m + daysInMonth y m"
proof -
  from assms have "m = 0 \<or> m = 1 \<or> m = 2 \<or> m = 3 \<or> m = 4 \<or> m = 5 \<or> m = 6 \<or> m = 7 \<or> m = 8 \<or>
    m = 9 \<or> m = 10" by arith
  then show ?thesis
    by (elim disjE) (simp_all add: daysBeforeMonth_def daysInMonth_def)
qed

lemma daysBeforeMonth_12:
  "daysBeforeMonth y 11 + daysInMonth y 11 = (if isLeap y then 366 else 365)"
  by (simp add: daysBeforeMonth_def daysInMonth_def)

lemma month_mono:
  assumes "0 \<le> m1" "m1 < m2"
  shows "m2 \<le> 11 \<longrightarrow> daysBeforeMonth y m1 + daysInMonth y m1 \<le> daysBeforeMonth y m2"
  using assms(2)
proof (induction m2 rule: int_gr_induct)
  case base
  then show ?case using assms(1) by (simp add: daysBeforeMonth_step)
next
  case (step i)
  then show ?case using assms(1) daysInMonth_bounds(1) [of y i]
    by (auto simp: daysBeforeMonth_step)
qed

lemma daysBeforeMonth_nonneg: "0 \<le> daysBeforeMonth y m"
  by (simp add: daysBeforeMonth_def)

lemma in_year_bounds:
  assumes "valid_date dt"
  shows "0 \<le> daysBeforeMonth (year dt) (month dt) + day dt - 1"
    and "daysBeforeMonth (year dt) (month dt) + day dt - 1 < (if isLeap (year dt) then 366 else 365)"
proof -
  from assms have v: "0 \<le> month dt" "month dt \<le> 11" "1 \<le> day dt"
    "day dt \<le> daysInMonth (year dt) (month dt)" unfolding valid_date_def by simp_all
  show "0 \<le> daysBeforeMonth (year dt) (month dt) + day dt - 1"
    using v(3) daysBeforeMonth_nonneg [of "year dt" "month dt"] by linarith
  have "daysBeforeMonth (year dt) (month dt) + daysInMonth (year dt) (month dt)
          \<le> daysBeforeMonth (year dt) 11 + daysInMonth (year dt) 11"
  proof (cases "month dt = 11")
    case True then show ?thesis by simp
  next
    case False
    then have "month dt < 11" using v(2) by simp
    from month_mono [OF v(1) this, of "year dt"] daysInMonth_bounds(1) [of "year dt" 11]
    show ?thesis by simp
  qed
  then show "daysBeforeMonth (year dt) (month dt) + day dt - 1 < (if isLeap (year dt) then 366 else 365)"
    using v(4) unfolding daysBeforeMonth_12 by (simp split: if_splits)
qed

lemma dayNumber_mono:
  assumes "valid_date a" "valid_date b" "date_before a b"
  shows "dayNumber a < dayNumber b"
proof -
  consider (y) "year a < year b"
    | (m) "year a = year b" "month a < month b"
    | (d) "year a = year b" "month a = month b" "day a < day b"
    using assms(3) unfolding date_before_def by blast
  then show ?thesis
  proof cases
    case y
    have "dayNumber a < dayFromYear (year a + 1)"
      using in_year_bounds(2) [OF assms(1)] unfolding dayNumber_def dayFromYear_step
      by (simp split: if_splits)
    also have "\<dots> \<le> dayFromYear (year b)"
    proof (cases "year a + 1 = year b")
      case True then show ?thesis by simp
    next
      case False
      then have "year a + 1 < year b" using y by simp
      from dayFromYear_mono [OF this] show ?thesis by simp
    qed
    also have "\<dots> \<le> dayNumber b"
      using in_year_bounds(1) [OF assms(2)] unfolding dayNumber_def by simp
    finally show ?thesis .
  next
    case m
    have "daysBeforeMonth (year a) (month a) + daysInMonth (year a) (month a)
            \<le> daysBeforeMonth (year a) (month b)"
      using month_mono [of "month a" "month b" "year a"] assms(1,2) m(2)
      unfolding valid_date_def by simp
    then show ?thesis
      using assms(1,2) m(1) unfolding dayNumber_def valid_date_def by simp
  next
    case d
    then show ?thesis unfolding dayNumber_def by simp
  qed
qed

lemma date_trichotomy: "date_before a b \<or> a = b \<or> date_before b a"
  unfolding date_before_def by (cases a, cases b) auto


lemma getTime_less_iff:
  assumes "valid_date a" "valid_date b"
  shows "(getTime a < getTime b) = date_before a b"
proof
  assume lt: "getTime a < getTime b"
  show "date_before a b"
  proof (rule ccontr)
    assume n: "\<not> date_before a b"
    then consider "a = b" | "date_before b a" using date_trichotomy by blast
    then show False
    proof cases
      case 1 then show ?thesis using lt by simp
    next
      case 2
      from dayNumber_mono [OF assms(2) assms(1) this] lt show ?thesis
        unfolding getTime_def by simp
    qed
  qed
next
  assume "date_before a b"
  from dayNumber_mono [OF assms this] show "getTime a < getTime b"
    unfolding getTime_def by simp
qed

lemma normDay_valid: "0 \<le> m \<Longrightarrow> m \<le> 11 \<Longrightarrow> valid_date (normDay y m d)"
proof (induction y m d rule: normDay.induct)
  case (1 y m d)
  show ?case
  proof (cases "d < 1")
    case True
    then show ?thesis
      using 1(1) [OF True] 1(3,4)
      by (subst normDay.simps) (simp add: prevMonth_def)
  next
    case False
    show ?thesis
    proof (cases "daysInMonth y m < d")
      case True
      then show ?thesis using 1(2) [OF False True] 1(3,4) False
        by (subst normDay.simps) (simp add: nextMonth_def)
    next
      case F2: False
      then show ?thesis using False 1(3,4)
        by (subst normDay.simps) (simp add: valid_date_def)
    qed
  qed
qed

lemma newDate_valid: "valid_date (newDate y m d)"
  unfolding newDate_def by (rule normDay_valid) simp_all

lemma normDay_id: "1 \<le> d \<Longrightarrow> d \<le> daysInMonth y m \<Longrightarrow> normDay y m d = \<lparr>year = y, month = m, day = d\<rparr>"
  by (subst normDay.simps) simp

lemma newDate_in_month:
  assumes "0 \<le> m" "m \<le> 11" "1 \<le> d" "d \<le> daysInMonth (toFullYear y) m"
  shows "newDate y m d = \<lparr>year = toFullYear y, month = m, day = d\<rparr>"
proof -
  have "m div 12 = 0" "m mod 12 = m" using assms(1,2) by simp_all
  then show ?thesis using assms(3,4) unfolding newDate_def
    by (simp only: normDay_id add_0_right)
qed

lemma toFullYear_id: "\<not> (0 \<le> y \<and> y \<le> 99) \<Longrightarrow> toFullYear y = y"
  unfolding toFullYear_def by simp

lemma toFullYear_range: "\<not> (0 \<le> toFullYear y \<and> toFullYear y \<le> 99)"
  unfolding toFullYear_def by simp

lemma newDate_id:
  assumes "\<not> (0 \<le> y \<and> y \<le> 99)" "0 \<le> m" "m \<le> 11" "1 \<le> d" "d \<le> daysInMonth y m"
  shows "newDate y m d = \<lparr>year = y, month = m, day = d\<rparr>"
  using newDate_in_month [of m d y] assms by (simp add: toFullYear_id)

lemma newDate_lastDay:
  assumes "0 \<le> m" "m \<le> 11"
  shows "getDate (newDate y (m + 1) 0) = daysInMonth (toFullYear y) m"
proof (cases "m = 11")
  case True
  have "normDay (toFullYear y + 1) 0 0 = normDay (toFullYear y) 11 (daysInMonth (toFullYear y) 11)"
    by (subst normDay.simps) (simp add: prevYear_def prevMonth_def)
  also have "\<dots> = \<lparr>year = toFullYear y, month = 11, day = daysInMonth (toFullYear y) 11\<rparr>"
    using daysInMonth_bounds [of "toFullYear y" 11] by (simp add: normDay_id)
  finally show ?thesis using True unfolding newDate_def getDate_def by simp
next
  case False
  then have m: "(m + 1) div 12 = 0" "(m + 1) mod 12 = m + 1" using assms by simp_all
  have p: "prevYear (toFullYear y) (m + 1) = toFullYear y" "prevMonth (m + 1) = m"
    using assms(1) by (simp_all add: prevYear_def prevMonth_def)
  have "normDay (toFullYear y) (m + 1) 0 = normDay (toFullYear y) m (daysInMonth (toFullYear y) m)"
    by (subst normDay.simps) (simp add: p)
  also have "\<dots> = \<lparr>year = toFullYear y, month = m, day = daysInMonth (toFullYear y) m\<rparr>"
    using daysInMonth_bounds [of "toFullYear y" m] by (simp add: normDay_id)
  finally show ?thesis unfolding newDate_def m getDate_def by simp
qed

lemma startOfDay_id:
  assumes "valid_date dt" "\<not> (0 \<le> year dt \<and> year dt \<le> 99)"
  shows "startOfDay dt = dt"
  using assms newDate_id [of "year dt" "month dt" "day dt"]
  unfolding startOfDay_def getFullYear_def getMonth_def getDate_def valid_date_def by simp

lemma startOfDay_valid: "valid_date (startOfDay dt)"
  unfolding startOfDay_def by (rule newDate_valid)

section \<open>Parsing a calendar date\<close>

lemma parse_unfold:
  "parseYYYYMMDD s =
     (if matchesYYYYMMDD s \<and> getFullYear (newDate (yearPart s) (monthPart s - 1) (dayPart s)) = yearPart s
         \<and> getMonth (newDate (yearPart s) (monthPart s - 1) (dayPart s)) = monthPart s - 1
         \<and> getDate (newDate (yearPart s) (monthPart s - 1) (dayPart s)) = dayPart s
      then Some (newDate (yearPart s) (monthPart s - 1) (dayPart s)) else None)"
  unfolding parseYYYYMMDD_def yearPart_def monthPart_def dayPart_def Let_def by simp

lemma newDate_two_digit_year:
  assumes y: "0 \<le> y" "y \<le> 99" and m: "0 \<le> m" "m \<le> 11" and d: "1 \<le> d" "d \<le> 31"
  shows "year (newDate y m d) \<noteq> y"
proof -
  have dm: "m div 12 = 0" "m mod 12 = m" using m by simp_all
  have nd: "newDate y m d = normDay (1900 + y) m d"
    using y unfolding newDate_def toFullYear_def dm by simp
  show ?thesis
  proof (cases "d \<le> daysInMonth (1900 + y) m")
    case True
    then show ?thesis using d(1) y unfolding nd by (simp add: normDay_id)
  next
    case False
    then have gt: "daysInMonth (1900 + y) m < d" by simp
    have b: "1 \<le> d - daysInMonth (1900 + y) m"
      "d - daysInMonth (1900 + y) m \<le> daysInMonth (nextYear (1900 + y) m) (nextMonth m)"
      using gt d(2) daysInMonth_bounds [of "1900 + y" m]
        daysInMonth_bounds [of "nextYear (1900 + y) m" "nextMonth m"] by linarith+
    have "normDay (1900 + y) m d
            = normDay (nextYear (1900 + y) m) (nextMonth m) (d - daysInMonth (1900 + y) m)"
      using gt d(1) by (subst normDay.simps) simp
    also have "\<dots> = \<lparr>year = nextYear (1900 + y) m, month = nextMonth m,
                        day = d - daysInMonth (1900 + y) m\<rparr>"
      using b by (rule normDay_id)
    finally show ?thesis using y unfolding nd by (simp add: nextYear_def)
  qed
qed

lemma roundtrip_iff:
  "(getFullYear (newDate y m d) = y \<and> getMonth (newDate y m d) = m \<and> getDate (newDate y m d) = d)
   = (\<not> (0 \<le> y \<and> y \<le> 99) \<and> 0 \<le> m \<and> m \<le> 11 \<and> 1 \<le> d \<and> d \<le> daysInMonth y m)"
proof
  assume r: "getFullYear (newDate y m d) = y \<and> getMonth (newDate y m d) = m \<and> getDate (newDate y m d) = d"
  have v: "valid_date (newDate y m d)" by (rule newDate_valid)
  from r v have b: "0 \<le> m" "m \<le> 11" "1 \<le> d" "d \<le> daysInMonth y m"
    unfolding valid_date_def getFullYear_def getMonth_def getDate_def by auto
  have "\<not> (0 \<le> y \<and> y \<le> 99)"
  proof
    assume "0 \<le> y \<and> y \<le> 99"
    then have "year (newDate y m d) \<noteq> y"
      using newDate_two_digit_year [of y m d] b daysInMonth_bounds(2) [of y m] by linarith
    then show False using r unfolding getFullYear_def by simp
  qed
  then show "\<not> (0 \<le> y \<and> y \<le> 99) \<and> 0 \<le> m \<and> m \<le> 11 \<and> 1 \<le> d \<and> d \<le> daysInMonth y m"
    using b by simp
next
  assume a: "\<not> (0 \<le> y \<and> y \<le> 99) \<and> 0 \<le> m \<and> m \<le> 11 \<and> 1 \<le> d \<and> d \<le> daysInMonth y m"
  then have "newDate y m d = \<lparr>year = y, month = m, day = d\<rparr>"
    by (intro newDate_id) simp_all
  then show "getFullYear (newDate y m d) = y \<and> getMonth (newDate y m d) = m \<and> getDate (newDate y m d) = d"
    unfolding getFullYear_def getMonth_def getDate_def by simp
qed

lemma parse_calendar:
  "parseYYYYMMDD s =
     (if matchesYYYYMMDD s \<and> \<not> (0 \<le> yearPart s \<and> yearPart s \<le> 99)
         \<and> 1 \<le> monthPart s \<and> monthPart s \<le> 12
         \<and> 1 \<le> dayPart s \<and> dayPart s \<le> daysInMonth (yearPart s) (monthPart s - 1)
      then Some \<lparr>year = yearPart s, month = monthPart s - 1, day = dayPart s\<rparr> else None)"
proof (cases "matchesYYYYMMDD s \<and> \<not> (0 \<le> yearPart s \<and> yearPart s \<le> 99)
         \<and> 1 \<le> monthPart s \<and> monthPart s \<le> 12
         \<and> 1 \<le> dayPart s \<and> dayPart s \<le> daysInMonth (yearPart s) (monthPart s - 1)")
  case True
  then have "newDate (yearPart s) (monthPart s - 1) (dayPart s)
     = \<lparr>year = yearPart s, month = monthPart s - 1, day = dayPart s\<rparr>"
    by (intro newDate_id) simp_all
  then show ?thesis using True unfolding parse_unfold getFullYear_def getMonth_def getDate_def by simp
next
  case False
  then have "\<not> (matchesYYYYMMDD s \<and>
     (getFullYear (newDate (yearPart s) (monthPart s - 1) (dayPart s)) = yearPart s
         \<and> getMonth (newDate (yearPart s) (monthPart s - 1) (dayPart s)) = monthPart s - 1
         \<and> getDate (newDate (yearPart s) (monthPart s - 1) (dayPart s)) = dayPart s))"
    unfolding roundtrip_iff by auto
  then show ?thesis using False unfolding parse_unfold by auto
qed

lemma parse_valid: "parseYYYYMMDD s = Some dt \<Longrightarrow> valid_date dt \<and> \<not> (0 \<le> year dt \<and> year dt \<le> 99)"
  unfolding parse_calendar by (auto simp: valid_date_def split: if_splits)

text \<open>The definitions a concrete date or date string is evaluated with.\<close>

lemmas eval_date = matchesYYYYMMDD_def isDigit_def digitsToInt_def digitVal_def newDate_def toFullYear_def
  normDay.simps daysInMonth_def isLeap_def nextYear_def nextMonth_def prevYear_def prevMonth_def
  getFullYear_def getMonth_def getDate_def yearPart_def monthPart_def dayPart_def

text \<open>
  C8. \<open>parseYYYYMMDD\<close> is a total function into \<open>date option\<close>: it returns \<open>None\<close>
  for every string outside the pattern of four digits, two digits and two digits, and
  for every string in the pattern whose three numbers do not come back from the date
  built from them; a date it returns is the calendar date the string names. So
  "2024-02-30" gives \<open>None\<close>.
\<close>

theorem parseYYYYMMDD_strict:
  "(\<not> matchesYYYYMMDD s \<longrightarrow> parseYYYYMMDD s = None)
   \<and> (getFullYear (newDate (yearPart s) (monthPart s - 1) (dayPart s)) \<noteq> yearPart s
        \<or> getMonth (newDate (yearPart s) (monthPart s - 1) (dayPart s)) \<noteq> monthPart s - 1
        \<or> getDate (newDate (yearPart s) (monthPart s - 1) (dayPart s)) \<noteq> dayPart s
       \<longrightarrow> parseYYYYMMDD s = None)
   \<and> (\<forall>dt. parseYYYYMMDD s = Some dt \<longrightarrow>
          matchesYYYYMMDD s \<and> dt = \<lparr>year = yearPart s, month = monthPart s - 1, day = dayPart s\<rparr>
          \<and> valid_date dt)
   \<and> parseYYYYMMDD ''2024-02-30'' = None"
proof (intro conjI impI allI)
  assume "\<not> matchesYYYYMMDD s"
  then show "parseYYYYMMDD s = None" unfolding parse_unfold by simp
next
  assume "getFullYear (newDate (yearPart s) (monthPart s - 1) (dayPart s)) \<noteq> yearPart s
        \<or> getMonth (newDate (yearPart s) (monthPart s - 1) (dayPart s)) \<noteq> monthPart s - 1
        \<or> getDate (newDate (yearPart s) (monthPart s - 1) (dayPart s)) \<noteq> dayPart s"
  then show "parseYYYYMMDD s = None" unfolding parse_unfold by auto
next
  fix dt assume a: "parseYYYYMMDD s = Some dt"
  then show "matchesYYYYMMDD s" unfolding parse_unfold by (simp split: if_splits)
  from a show "dt = \<lparr>year = yearPart s, month = monthPart s - 1, day = dayPart s\<rparr>"
    unfolding parse_calendar by (simp split: if_splits)
  from a show "valid_date dt" using parse_valid by blast
next
  show "parseYYYYMMDD ''2024-02-30'' = None"
    unfolding parse_calendar by (simp add: eval_date)
qed

theorem parseYYYYMMDD_strict_witness:
  "parseYYYYMMDD ''2024-2-30'' = None \<and> parseYYYYMMDD ''2023-02-29'' = None
   \<and> parseYYYYMMDD ''2024-02-29'' = Some \<lparr>year = 2024, month = 1, day = 29\<rparr>
   \<and> valid_date \<lparr>year = 2024, month = 1, day = 29\<rparr>"
proof -
  have a: "\<not> matchesYYYYMMDD ''2024-2-30''" by (simp add: eval_date)
  have b: "getDate (newDate (yearPart ''2023-02-29'') (monthPart ''2023-02-29'' - 1) (dayPart ''2023-02-29''))
             \<noteq> dayPart ''2023-02-29''" by (simp add: eval_date)
  have c: "parseYYYYMMDD ''2024-02-29'' = Some \<lparr>year = 2024, month = 1, day = 29\<rparr>"
    unfolding parse_calendar by (simp add: eval_date)
  show ?thesis
    using parseYYYYMMDD_strict [of "''2024-2-30''"] parseYYYYMMDD_strict [of "''2023-02-29''"]
      parseYYYYMMDD_strict [of "''2024-02-29''"] a b c by blast
qed

section \<open>Due dates of recurring bills\<close>

lemma current_is_viewed:
  "getRecurringDueDateInCurrentMonth now d = getRecurringDueDateInViewedMonth (nowYear now) (nowMonth now) d"
  unfolding getRecurringDueDateInCurrentMonth_def getRecurringDueDateInViewedMonth_def by simp

lemma recurring_viewed:
  assumes "0 \<le> m" "m \<le> 11" "isInteger n"
  shows "getRecurringDueDateInViewedMonth y m (Some n)
     = Some \<lparr>year = toFullYear y, month = m,
             day = min (max (intOf n) 1) (daysInMonth (toFullYear y) m)\<rparr>"
proof -
  let ?c = "min (max (intOf n) 1) (daysInMonth (toFullYear y) m)"
  have "1 \<le> ?c" "?c \<le> daysInMonth (toFullYear y) m"
    using daysInMonth_bounds(1) [of "toFullYear y" m] by simp_all
  from newDate_in_month [OF assms(1,2) this]
  show ?thesis using assms(3)
    unfolding getRecurringDueDateInViewedMonth_def Let_def newDate_lastDay [OF assms(1,2)] by simp
qed

lemma recurring_viewed_none:
  "(getRecurringDueDateInViewedMonth y m d = None) = (d = None \<or> \<not> isInteger (the d))"
  unfolding getRecurringDueDateInViewedMonth_def Let_def by (cases d) auto

lemma recurring_current:
  assumes "valid_date now" "isInteger n"
  shows "getRecurringDueDateInCurrentMonth now (Some n)
     = Some \<lparr>year = toFullYear (year now), month = month now,
             day = min (max (intOf n) 1) (daysInMonth (toFullYear (year now)) (month now))\<rparr>"
  using assms recurring_viewed [of "month now" n "year now"]
  unfolding current_is_viewed nowYear_def nowMonth_def getFullYear_def getMonth_def valid_date_def
  by simp

lemma recurring_current_none:
  "(getRecurringDueDateInCurrentMonth now d = None) = (d = None \<or> \<not> isInteger (the d))"
  unfolding current_is_viewed by (rule recurring_viewed_none)

lemma recurring_current_valid:
  assumes "valid_date now" "getRecurringDueDateInCurrentMonth now d = Some due"
  shows "valid_date due \<and> \<not> (0 \<le> year due \<and> year due \<le> 99)"
proof -
  from assms(2) obtain n where d: "d = Some n" and i: "isInteger n"
    using recurring_current_none [of now d] by (cases d) auto
  have "due = \<lparr>year = toFullYear (year now), month = month now,
             day = min (max (intOf n) 1) (daysInMonth (toFullYear (year now)) (month now))\<rparr>"
    using recurring_current [OF assms(1) i] assms(2) d by simp
  then show ?thesis
    using assms(1) toFullYear_range [of "year now"] daysInMonth_bounds(1) [of "toFullYear (year now)" "month now"]
    unfolding valid_date_def by simp
qed

lemma resolveDueDate_valid:
  assumes "valid_date now" "resolveDueDate now b = Some due"
  shows "valid_date due \<and> \<not> (0 \<le> year due \<and> year due \<le> 99)"
proof (cases "recurrence b = Some Monthly")
  case True
  then show ?thesis using assms recurring_current_valid unfolding resolveDueDate_def by simp
next
  case False
  then have "parseYYYYMMDD (the (dueDate b)) = Some due"
    using assms(2) unfolding resolveDueDate_def by (simp split: if_splits)
  then show ?thesis by (rule parse_valid)
qed


text \<open>The definitions a period string is evaluated with.\<close>

lemmas eval_str = intToString_def natToString.simps padStart2_def digitChar_def getYYYYMM_def
  currentYYYYMM_def getCurrentYYYYMM_def nowYear_def nowMonth_def getFullYear_def getMonth_def

lemma billEvent_monthly:
  assumes "recurrence b = Some Monthly" "dayOfMonth b = Some n" "isInteger n"
    and "0 \<le> month v" "month v \<le> 11"
  shows "\<exists>e. billEvent toFixed2 v today b = Some e \<and> ev_bill e = b
     \<and> ev_dayOfMonth e = min (max (intOf n) 1) (daysInMonth (toFullYear (year v)) (month v))
     \<and> (ev_status e = ChipPaid) = (paidForMonth b = Some (getYYYYMM v))
     \<and> (isMonthInFuture (year v) (month v) (year today) (month today) \<longrightarrow> ev_status e \<noteq> ChipOverdue)"
  using assms recurring_viewed [OF assms(4,5,3), of "year v"]
  unfolding billEvent_def Let_def getFullYear_def getMonth_def getDate_def by simp

section \<open>Derived status\<close>

text \<open>
  C2. For a monthly bill and any period \<open>p\<close>, \<open>getDerivedStatus\<close> is \<open>Paid\<close> exactly
  when \<open>paidForMonth\<close> is the string \<open>p\<close>, and \<open>Unpaid\<close> otherwise; for a bill that is
  not monthly it is the stored status. The calendar does the same test against the
  viewed period: the chip of a monthly bill is paid exactly when \<open>paidForMonth\<close> is the
  viewed period.
\<close>

theorem getDerivedStatus_exact:
  "(recurrence b = Some Monthly \<longrightarrow> (getDerivedStatus p b = Paid) = (paidForMonth b = Some p))
   \<and> (recurrence b = Some Monthly \<longrightarrow> (getDerivedStatus p b = Unpaid) = (paidForMonth b \<noteq> Some p))
   \<and> (recurrence b \<noteq> Some Monthly \<longrightarrow> getDerivedStatus p b = status b)
   \<and> (recurrence b = Some Monthly \<longrightarrow>
        (\<forall>e. billEvent toFixed2 viewedMonthDate today b = Some e \<longrightarrow>
           (ev_status e = ChipPaid) = (paidForMonth b = Some (getYYYYMM viewedMonthDate))))"
  unfolding getDerivedStatus_def billEvent_def Let_def
  by (auto split: option.splits if_splits)

theorem getDerivedStatus_exact_witness:
  "getDerivedStatus ''2024-03'' scenarioC = Paid
   \<and> getDerivedStatus ''2024-04'' scenarioC = Unpaid
   \<and> getDerivedStatus ''2024-03'' scenarioB = Unpaid
   \<and> (\<exists>e. billEvent (\<lambda>n. []) \<lparr>year = 2024, month = 2, day = 1\<rparr> march10 scenarioC = Some e
          \<and> ev_status e = ChipPaid)"
proof -
  let ?v = "\<lparr>year = 2024, month = 2, day = 1\<rparr>"
  have m: "recurrence scenarioC = Some Monthly" "recurrence scenarioB \<noteq> Some Monthly"
    unfolding scenarioC_def scenarioB_def by simp_all
  have p: "paidForMonth scenarioC = Some ''2024-03''" "paidForMonth scenarioC \<noteq> Some ''2024-04''"
    "status scenarioB = Unpaid" "paidForMonth scenarioC = Some (getYYYYMM ?v)"
    unfolding scenarioC_def scenarioB_def by (simp_all add: eval_str)
  obtain e where e: "billEvent (\<lambda>n. []) ?v march10 scenarioC = Some e"
    using billEvent_monthly [of scenarioC "Finite 15" ?v "\<lambda>n. []" march10]
    unfolding scenarioC_def by auto
  show ?thesis
    using getDerivedStatus_exact [of scenarioC "''2024-03''" "\<lambda>n. []" ?v march10]
      getDerivedStatus_exact [of scenarioC "''2024-04''" "\<lambda>n. []" ?v march10]
      getDerivedStatus_exact [of scenarioB "''2024-03''" "\<lambda>n. []" ?v march10] m p e
    by auto
qed

section \<open>Overdue bills\<close>



section \<open>The bill feed\<close>

lemma isInteger_of_int: "isInteger (Finite (of_int k))"
  by simp

lemma isInteger_D: "isInteger n \<Longrightarrow> \<exists>k. n = Finite (of_int k)"
  by (cases n) (auto intro: exI [of _ "\<lfloor>x\<rfloor>" for x])

text \<open>
  C10. Every bill that \<open>listenToBills\<close> delivers comes from a document of the snapshot
  and, whatever the document holds: its status is \<open>Paid\<close> exactly when the stored status
  is the string "paid" and \<open>Unpaid\<close> otherwise; its recurrence is monthly exactly when
  the stored one is the string "monthly" and absent otherwise; its day of the month is
  absent or an integer from 1 to 31, and absent exactly when the stored value is not such
  an integer; its amount is the stored number, or 0 when the stored value is not a
  number; its due date is the stored string or absent.
\<close>

theorem listenToBills_normalises:
  "\<forall>b \<in> set (listenToBills docs). \<exists>docId data. (docId, data) \<in> set docs \<and> b = toBillListItem docId data
     \<and> billId b = docId
     \<and> (status b = Paid) = (getField data ''status'' = JString ''paid'')
     \<and> (status b = Unpaid) = (getField data ''status'' \<noteq> JString ''paid'')
     \<and> (recurrence b = Some Monthly) = (getField data ''recurrence'' = JString ''monthly'')
     \<and> (recurrence b = None) = (getField data ''recurrence'' \<noteq> JString ''monthly'')
     \<and> (dayOfMonth b = None \<or>
          (\<exists>k. 1 \<le> k \<and> k \<le> 31 \<and> dayOfMonth b = Some (Finite (of_int k))
               \<and> getField data ''dayOfMonth'' = JNumber (Finite (of_int k))))
     \<and> (dayOfMonth b = None) =
          (\<not> (\<exists>k. 1 \<le> k \<and> k \<le> 31 \<and> getField data ''dayOfMonth'' = JNumber (Finite (of_int k))))
     \<and> amount b = (case getField data ''amount'' of JNumber n \<Rightarrow> n | _ \<Rightarrow> Finite 0)
     \<and> dueDate b = (case getField data ''dueDate'' of JString t \<Rightarrow> Some t | _ \<Rightarrow> None)
     \<and> paidForMonth b = (case getField data ''paidForMonth'' of JString t \<Rightarrow> Some t | _ \<Rightarrow> None)"
proof
  fix b assume "b \<in> set (listenToBills docs)"
  then obtain docId data where d: "(docId, data) \<in> set docs" "b = toBillListItem docId data"
    unfolding listenToBills_def by auto
  have dom: "dayOfMonth b = None \<or>
          (\<exists>k. 1 \<le> k \<and> k \<le> 31 \<and> dayOfMonth b = Some (Finite (of_int k))
               \<and> getField data ''dayOfMonth'' = JNumber (Finite (of_int k)))"
  proof (cases "dayOfMonth b")
    case None then show ?thesis by simp
  next
    case (Some n)
    then have r: "getField data ''dayOfMonth'' = JNumber n" "isInteger n" "num_le (Finite 1) n" "num_le n (Finite 31)"
      unfolding d(2) toBillListItem_def Let_def by (auto split: jsval.splits if_splits)
    from r(2) obtain k where k: "n = Finite (of_int k)" using isInteger_D by blast
    then have "1 \<le> k" "k \<le> 31" using r(3,4) by simp_all
    then show ?thesis using Some k r(1) by auto
  qed
  have dom2: "(dayOfMonth b = None) =
          (\<not> (\<exists>k. 1 \<le> k \<and> k \<le> 31 \<and> getField data ''dayOfMonth'' = JNumber (Finite (of_int k))))"
  proof
    assume "dayOfMonth b = None"
    then show "\<not> (\<exists>k. 1 \<le> k \<and> k \<le> 31 \<and> getField data ''dayOfMonth'' = JNumber (Finite (of_int k)))"
      unfolding d(2) toBillListItem_def Let_def by (auto split: jsval.splits if_splits)
  next
    assume "\<not> (\<exists>k. 1 \<le> k \<and> k \<le> 31 \<and> getField data ''dayOfMonth'' = JNumber (Finite (of_int k)))"
    then show "dayOfMonth b = None" using dom by auto
  qed
  have rest: "billId b = docId"
     "(status b = Paid) = (getField data ''status'' = JString ''paid'')"
     "(status b = Unpaid) = (getField data ''status'' \<noteq> JString ''paid'')"
     "(recurrence b = Some Monthly) = (getField data ''recurrence'' = JString ''monthly'')"
     "(recurrence b = None) = (getField data ''recurrence'' \<noteq> JString ''monthly'')"
     "amount b = (case getField data ''amount'' of JNumber n \<Rightarrow> n | _ \<Rightarrow> Finite 0)"
     "dueDate b = (case getField data ''dueDate'' of JString t \<Rightarrow> Some t | _ \<Rightarrow> None)"
     "paidForMonth b = (case getField data ''paidForMonth'' of JString t \<Rightarrow> Some t | _ \<Rightarrow> None)"
    unfolding d(2) toBillListItem_def Let_def by simp_all
  show "\<exists>docId data. (docId, data) \<in> set docs \<and> b = toBillListItem docId data
     \<and> billId b = docId
     \<and> (status b = Paid) = (getField data ''status'' = JString ''paid'')
     \<and> (status b = Unpaid) = (getField data ''status'' \<noteq> JString ''paid'')
     \<and> (recurrence b = Some Monthly) = (getField data ''recurrence'' = JString ''monthly'')
     \<and> (recurrence b = None) = (getField data ''recurrence'' \<noteq> JString ''monthly'')
     \<and> (dayOfMonth b = None \<or>
          (\<exists>k. 1 \<le> k \<and> k \<le> 31 \<and> dayOfMonth b = Some (Finite (of_int k))
               \<and> getField data ''dayOfMonth'' = JNumber (Finite (of_int k))))
     \<and> (dayOfMonth b = None) =
          (\<not> (\<exists>k. 1 \<le> k \<and> k \<le> 31 \<and> getField data ''dayOfMonth'' = JNumber (Finite (of_int k))))
     \<and> amount b = (case getField data ''amount'' of JNumber n \<Rightarrow> n | _ \<Rightarrow> Finite 0)
     \<and> dueDate b = (case getField data ''dueDate'' of JString t \<Rightarrow> Some t | _ \<Rightarrow> None)
     \<and> paidForMonth b = (case getField data ''paidForMonth'' of JString t \<Rightarrow> Some t | _ \<Rightarrow> None)"
    by (rule exI [of _ docId], rule exI [of _ data], intro conjI) (rule d dom dom2 rest)+
qed

theorem listenToBills_normalises_witness:
  "\<exists>b. listenToBills [(''d1'', [''status'' \<mapsto> JString ''Paid'', ''dayOfMonth'' \<mapsto> JNumber (Finite 32),
                                  ''amount'' \<mapsto> JString ''12''])] = [b]
        \<and> status b = Unpaid \<and> recurrence b = None \<and> dayOfMonth b = None \<and> amount b = Finite 0
        \<and> dueDate b = None"
proof -
  let ?data = "[''status'' \<mapsto> JString ''Paid'', ''dayOfMonth'' \<mapsto> JNumber (Finite 32),
                ''amount'' \<mapsto> JString ''12'']"
  have l: "listenToBills [(''d1'', ?data)] = [toBillListItem ''d1'' ?data]"
    unfolding listenToBills_def by simp
  have g: "getField ?data ''status'' = JString ''Paid''" "getField ?data ''recurrence'' = JUndefined"
    "getField ?data ''dayOfMonth'' = JNumber (Finite 32)" "getField ?data ''amount'' = JString ''12''"
    "getField ?data ''dueDate'' = JUndefined"
    unfolding getField_def by simp_all
  have n: "\<not> (\<exists>k. 1 \<le> k \<and> k \<le> 31 \<and> JNumber (Finite 32) = JNumber (Finite (of_int k)))"
    by auto
  show ?thesis
    using listenToBills_normalises [of "[(''d1'', ?data)]"] n unfolding l
    by (auto simp: g)
qed

section \<open>The total due this month\<close>

lemma totalsStep_due:
  "dueThisMonthTotal (totalsStep now t b) =
     (if (if recurrence b = Some Monthly
          then getRecurringDueDateInCurrentMonth now (dayOfMonth b) \<noteq> None
          else oneTimeIsCurrentMonth now b)
      then num_add (dueThisMonthTotal t) (amount b) else dueThisMonthTotal t)"
  unfolding totalsStep_def Let_def by simp

lemma counted_iff_due:
  assumes "valid_date now" "\<not> (0 \<le> year now \<and> year now \<le> 99)"
  shows "(if recurrence b = Some Monthly
          then getRecurringDueDateInCurrentMonth now (dayOfMonth b) \<noteq> None
          else oneTimeIsCurrentMonth now b) = dueInCurrentMonth now b"
proof (cases "recurrence b = Some Monthly")
  case True
  show ?thesis
  proof (cases "getRecurringDueDateInCurrentMonth now (dayOfMonth b)")
    case None
    then show ?thesis using True unfolding dueInCurrentMonth_def resolveDueDate_def by simp
  next
    case (Some due)
    then obtain n where n: "dayOfMonth b = Some n" "isInteger n"
      using recurring_current_none [of now "dayOfMonth b"] by (cases "dayOfMonth b") auto
    have "due = \<lparr>year = toFullYear (year now), month = month now,
             day = min (max (intOf n) 1) (daysInMonth (toFullYear (year now)) (month now))\<rparr>"
      using recurring_current [OF assms(1) n(2)] Some n(1) by simp
    then have "getMonth due = nowMonth now \<and> getFullYear due = nowYear now"
      using toFullYear_id [OF assms(2)]
      unfolding getMonth_def getFullYear_def nowMonth_def nowYear_def by simp
    then show ?thesis using True Some unfolding dueInCurrentMonth_def resolveDueDate_def by simp
  qed
next
  case False
  then show ?thesis
    unfolding dueInCurrentMonth_def resolveDueDate_def oneTimeIsCurrentMonth_def Let_def by simp
qed

lemma due_fold:
  "dueThisMonthTotal (foldl (totalsStep now) t bills) =
     foldl num_add (dueThisMonthTotal t)
       (map amount (filter (\<lambda>b. if recurrence b = Some Monthly
          then getRecurringDueDateInCurrentMonth now (dayOfMonth b) \<noteq> None
          else oneTimeIsCurrentMonth now b) bills))"
proof (induction bills arbitrary: t)
  case Nil
  show ?case by simp
next
  case (Cons b bs)
  show ?case unfolding foldl_Cons Cons.IH totalsStep_due by simp
qed

text \<open>
  C7, as the code has it. With the clock at a real date of a year outside 0..99:
  \<open>dueThisMonthTotal\<close> is the sum, in list order, of the amounts of the bills whose
  resolved due date lies in the current month, whatever their paid state. A monthly bill
  has such a date exactly when its day of the month is an integer; a one-time bill has
  one exactly when its due date parses to a date of the current month and year.
\<close>

theorem dueThisMonthTotal_sum:
  assumes "valid_date now" "\<not> (0 \<le> year now \<and> year now \<le> 99)"
  shows "dueThisMonthTotal (computeTotals now bills) = sumAmounts (dueInCurrentMonth now) bills
    \<and> (\<forall>b. recurrence b = Some Monthly \<longrightarrow>
          dueInCurrentMonth now b = (dayOfMonth b \<noteq> None \<and> isInteger (the (dayOfMonth b))))
    \<and> (\<forall>b. recurrence b \<noteq> Some Monthly \<longrightarrow>
          dueInCurrentMonth now b =
            (truthy (dueDate b) \<and>
             (\<exists>dt. parseYYYYMMDD (the (dueDate b)) = Some dt \<and> month dt = month now \<and> year dt = year now)))"
proof (intro conjI allI impI)
  have "(\<lambda>b. if recurrence b = Some Monthly
          then getRecurringDueDateInCurrentMonth now (dayOfMonth b) \<noteq> None
          else oneTimeIsCurrentMonth now b) = dueInCurrentMonth now"
    using counted_iff_due [OF assms] by (intro ext)
  then show "dueThisMonthTotal (computeTotals now bills) = sumAmounts (dueInCurrentMonth now) bills"
    unfolding computeTotals_def sumAmounts_def due_fold by simp
next
  fix b :: bill assume m: "recurrence b = Some Monthly"
  have "dueInCurrentMonth now b = (getRecurringDueDateInCurrentMonth now (dayOfMonth b) \<noteq> None)"
    using counted_iff_due [OF assms, of b] m by simp
  then show "dueInCurrentMonth now b = (dayOfMonth b \<noteq> None \<and> isInteger (the (dayOfMonth b)))"
    using recurring_current_none [of now "dayOfMonth b"] by simp
next
  fix b :: bill assume "recurrence b \<noteq> Some Monthly"
  then show "dueInCurrentMonth now b =
            (truthy (dueDate b) \<and>
             (\<exists>dt. parseYYYYMMDD (the (dueDate b)) = Some dt \<and> month dt = month now \<and> year dt = year now))"
    unfolding dueInCurrentMonth_def resolveDueDate_def getMonth_def getFullYear_def nowMonth_def nowYear_def
    by (auto split: option.splits)
qed

lemma april5_valid: "valid_date april5" "\<not> (0 \<le> year april5 \<and> year april5 \<le> 99)"
  unfolding april5_def valid_date_def daysInMonth_def by simp_all

lemma march10_valid: "valid_date march10" "\<not> (0 \<le> year march10 \<and> year march10 \<le> 99)"
  unfolding march10_def valid_date_def daysInMonth_def by simp_all

theorem dueThisMonthTotal_sum_witness:
  "valid_date march10 \<and> \<not> (0 \<le> year march10 \<and> year march10 \<le> 99)
   \<and> dueThisMonthTotal (computeTotals march10 [scenarioB, scenarioC, scenarioE]) = Finite 90
   \<and> dueInCurrentMonth march10 scenarioC"
proof -
  have c: "dueInCurrentMonth march10 scenarioC"
    using dueThisMonthTotal_sum [OF march10_valid, of "[]"] by (simp add: scenarioC_def)
  have e: "\<not> dueInCurrentMonth march10 scenarioE"
    using dueThisMonthTotal_sum [OF march10_valid, of "[]"] by (simp add: scenarioE_def truthy_def)
  have b: "dueInCurrentMonth march10 scenarioB"
    using dueThisMonthTotal_sum [OF march10_valid, of "[]"]
    by (simp add: scenarioB_def truthy_def parse_calendar eval_date march10_def)
  have "dueThisMonthTotal (computeTotals march10 [scenarioB, scenarioC, scenarioE])
          = sumAmounts (dueInCurrentMonth march10) [scenarioB, scenarioC, scenarioE]"
    using dueThisMonthTotal_sum [OF march10_valid] by simp
  also have "\<dots> = Finite 90"
    unfolding sumAmounts_def using b c e by (simp add: scenarioB_def scenarioC_def)
  finally show ?thesis using march10_valid c by simp
qed

text \<open>
  C7, as it is stated, counts every monthly bill. A monthly bill without a day of the
  month is not counted by the code.
\<close>

theorem dueThisMonthTotal_monthly_counterexample:
  "dueThisMonthTotal (computeTotals april5 [scenarioD\<lparr>dayOfMonth := None\<rparr>])
     \<noteq> sumAmounts (dueInCurrentMonth_monthlyAlways april5) [scenarioD\<lparr>dayOfMonth := None\<rparr>]"
proof -
  have "dueThisMonthTotal (computeTotals april5 [scenarioD\<lparr>dayOfMonth := None\<rparr>]) = Finite 0"
    unfolding computeTotals_def foldl_Cons foldl_Nil totalsStep_due
    by (simp add: scenarioD_def getRecurringDueDateInCurrentMonth_def)
  moreover have "sumAmounts (dueInCurrentMonth_monthlyAlways april5) [scenarioD\<lparr>dayOfMonth := None\<rparr>]
      = Finite 20"
    unfolding sumAmounts_def dueInCurrentMonth_monthlyAlways_def by (simp add: scenarioD_def)
  ultimately show ?thesis by simp
qed

text \<open>
  The older dashboard's total of the same name is another sum: it leaves out every bill
  whose derived status is not \<open>Unpaid\<close> and counts every unpaid monthly bill.
\<close>

lemma dueThisMonthTotal_old_sum:
  "dueThisMonthTotal_old now bills =
     sumAmounts (\<lambda>b. getDerivedStatus (currentYYYYMM now) b = Unpaid \<and>
                     (recurrence b = Some Monthly \<or> isDueThisMonth now (dueDate b))) bills"
proof -
  have "foldl (\<lambda>total b.
          if getDerivedStatus (currentYYYYMM now) b \<noteq> Unpaid then total
          else if recurrence b = Some Monthly then num_add total (amount b)
          else if isDueThisMonth now (dueDate b) then num_add total (amount b) else total) t bills
     = foldl num_add t (map amount (filter (\<lambda>b. getDerivedStatus (currentYYYYMM now) b = Unpaid \<and>
                     (recurrence b = Some Monthly \<or> isDueThisMonth now (dueDate b))) bills))" for t
    by (induction bills arbitrary: t) simp_all
  then show ?thesis unfolding dueThisMonthTotal_old_def sumAmounts_def by simp
qed

section \<open>The calendar projection\<close>

lemma set_insertBy: "set (insertBy cmp x xs) = insert x (set xs)"
  by (induction xs) auto

lemma set_sortBy: "set (sortBy cmp xs) = set xs"
  unfolding sortBy_def by (induction xs) (simp_all add: set_insertBy)



lemma sortBy_single: "sortBy cmp [x] = [x]"
  unfolding sortBy_def by simp

lemma collect_fold:
  "foldl (\<lambda>events b. case billEvent tf v t b of None \<Rightarrow> events | Some e \<Rightarrow> pushEvent events e) m bills d
     = (if eventsOnDay d (eventsOfBills tf v t bills) = [] then m d
        else Some ((case m d of None \<Rightarrow> [] | Some old \<Rightarrow> old) @ eventsOnDay d (eventsOfBills tf v t bills)))"
proof (induction bills arbitrary: m)
  case Nil
  show ?case unfolding eventsOfBills_def eventsOnDay_def by (simp add: map_filter_simps)
next
  case (Cons b bs)
  show ?case
  proof (cases "billEvent tf v t b")
    case None
    then show ?thesis unfolding foldl_Cons Cons.IH
      unfolding eventsOfBills_def eventsOnDay_def by (simp add: map_filter_simps)
  next
    case (Some e)
    then show ?thesis unfolding foldl_Cons Cons.IH
      unfolding eventsOfBills_def eventsOnDay_def pushEvent_def
      by (simp add: map_filter_simps split: option.splits)
  qed
qed

lemma eventsByDay_char:
  "eventsByDay lc tf v now bills d =
     (if eventsOnDay d (eventsOfBills tf v (startOfDay now) bills) = [] then None
      else Some (sortBy (compareEvents lc) (eventsOnDay d (eventsOfBills tf v (startOfDay now) bills))))"
  unfolding eventsByDay_def collectEvents_def collect_fold by simp

lemma eventsByDay_mem:
  assumes "eventsByDay lc tf v now bills d = Some es" "e \<in> set es"
  shows "\<exists>b \<in> set bills. billEvent tf v (startOfDay now) b = Some e"
proof -
  from assms have "e \<in> set (eventsOnDay d (eventsOfBills tf v (startOfDay now) bills))"
    unfolding eventsByDay_char by (auto simp: set_sortBy split: if_splits)
  then show ?thesis
    unfolding eventsOnDay_def eventsOfBills_def map_filter_def by auto
qed

lemma february_valid:
  "valid_date february2023" "\<not> (0 \<le> year february2023 \<and> year february2023 \<le> 99)"
  "valid_date february2024" "\<not> (0 \<le> year february2024 \<and> year february2024 \<le> 99)"
  unfolding february2023_def february2024_def valid_date_def daysInMonth_def by simp_all

text \<open>
  C4, as the code has it. For a viewed month of a year outside 0..99: a monthly bill whose
  day of the month is an integer has exactly one event, on that day clamped between 1 and
  the last day of the viewed month, and its chip is paid exactly when \<open>paidForMonth\<close> is
  the viewed period; a monthly bill whose day of the month is absent or not an integer has
  no event. For every bill list the calendar holds under each day the events of the bills
  for that day, one for each bill that has an event, sorted. A day of the month of 31
  gives day 28 in February 2023 and day 29 in February 2024.
\<close>

theorem monthly_event_clamped:
  assumes "valid_date v" "\<not> (0 \<le> year v \<and> year v \<le> 99)" "recurrence b = Some Monthly"
  shows "(\<forall>n. dayOfMonth b = Some n \<and> isInteger n \<longrightarrow>
            (\<exists>e. billEvent toFixed2 v (startOfDay now) b = Some e \<and> ev_bill e = b
               \<and> ev_dayOfMonth e = min (max (intOf n) 1) (daysInMonth (year v) (month v))
               \<and> (ev_status e = ChipPaid) = (paidForMonth b = Some (getYYYYMM v))
               \<and> eventsByDay lc toFixed2 v now [b] = [ev_dayOfMonth e \<mapsto> [e]]))
     \<and> (dayOfMonth b = None \<or> \<not> isInteger (the (dayOfMonth b)) \<longrightarrow>
            billEvent toFixed2 v (startOfDay now) b = None
            \<and> eventsByDay lc toFixed2 v now [b] = Map.empty)
     \<and> (\<forall>bills d. eventsByDay lc toFixed2 v now bills d =
            (if eventsOnDay d (eventsOfBills toFixed2 v (startOfDay now) bills) = [] then None
             else Some (sortBy (compareEvents lc)
                          (eventsOnDay d (eventsOfBills toFixed2 v (startOfDay now) bills)))))
     \<and> min (max (intOf (Finite 31)) 1) (daysInMonth (year february2023) (month february2023)) = 28
     \<and> min (max (intOf (Finite 31)) 1) (daysInMonth (year february2024) (month february2024)) = 29"
proof (intro conjI allI impI)
  fix n assume n: "dayOfMonth b = Some n \<and> isInteger n"
  from assms(1) have m: "0 \<le> month v" "month v \<le> 11" unfolding valid_date_def by simp_all
  obtain e where e: "billEvent toFixed2 v (startOfDay now) b = Some e" "ev_bill e = b"
    "ev_dayOfMonth e = min (max (intOf n) 1) (daysInMonth (toFullYear (year v)) (month v))"
    "(ev_status e = ChipPaid) = (paidForMonth b = Some (getYYYYMM v))"
    using billEvent_monthly [OF assms(3) _ _ m, of n toFixed2 "startOfDay now"] n by blast
  have "eventsByDay lc toFixed2 v now [b] = [ev_dayOfMonth e \<mapsto> [e]]"
    by (rule ext) (simp add: eventsByDay_char eventsOfBills_def eventsOnDay_def map_filter_simps e(1)
          sortBy_single)
  then show "\<exists>e. billEvent toFixed2 v (startOfDay now) b = Some e \<and> ev_bill e = b
               \<and> ev_dayOfMonth e = min (max (intOf n) 1) (daysInMonth (year v) (month v))
               \<and> (ev_status e = ChipPaid) = (paidForMonth b = Some (getYYYYMM v))
               \<and> eventsByDay lc toFixed2 v now [b] = [ev_dayOfMonth e \<mapsto> [e]]"
    using e toFullYear_id [OF assms(2)] by auto
next
  assume "dayOfMonth b = None \<or> \<not> isInteger (the (dayOfMonth b))"
  then have "getRecurringDueDateInViewedMonth (getFullYear v) (getMonth v) (dayOfMonth b) = None"
    using recurring_viewed_none by simp
  then show n: "billEvent toFixed2 v (startOfDay now) b = None"
    using assms(3) unfolding billEvent_def Let_def by simp
  show "eventsByDay lc toFixed2 v now [b] = Map.empty"
    by (rule ext) (simp add: eventsByDay_char eventsOfBills_def eventsOnDay_def map_filter_simps n)
next
  fix bills d
  show "eventsByDay lc toFixed2 v now bills d =
            (if eventsOnDay d (eventsOfBills toFixed2 v (startOfDay now) bills) = [] then None
             else Some (sortBy (compareEvents lc)
                          (eventsOnDay d (eventsOfBills toFixed2 v (startOfDay now) bills))))"
    by (rule eventsByDay_char)
next
  show "min (max (intOf (Finite 31)) 1) (daysInMonth (year february2023) (month february2023)) = 28"
    unfolding february2023_def daysInMonth_def isLeap_def by simp
  show "min (max (intOf (Finite 31)) 1) (daysInMonth (year february2024) (month february2024)) = 29"
    unfolding february2024_def daysInMonth_def isLeap_def by simp
qed

theorem monthly_event_clamped_witness:
  "valid_date february2023 \<and> \<not> (0 \<le> year february2023 \<and> year february2023 \<le> 99)
   \<and> recurrence scenarioA = Some Monthly \<and> dayOfMonth scenarioA = Some (Finite 31) \<and> isInteger (Finite 31)
   \<and> (\<exists>e. billEvent noDecimals february2023 (startOfDay march10) scenarioA = Some e
          \<and> ev_dayOfMonth e = 28 \<and> ev_status e \<noteq> ChipPaid
          \<and> eventsByDay compareByLength noDecimals february2023 march10 [scenarioA] = [28 \<mapsto> [e]])
   \<and> (\<exists>e. billEvent noDecimals february2024 (startOfDay march10) scenarioA = Some e
          \<and> ev_dayOfMonth e = 29
          \<and> eventsByDay compareByLength noDecimals february2024 march10 [scenarioA] = [29 \<mapsto> [e]])"
proof -
  have a: "recurrence scenarioA = Some Monthly" "dayOfMonth scenarioA = Some (Finite 31)"
    "isInteger (Finite 31)" "paidForMonth scenarioA \<noteq> Some (getYYYYMM february2023)"
    unfolding scenarioA_def by simp_all
  have "\<exists>e. billEvent noDecimals february2023 (startOfDay march10) scenarioA = Some e \<and> ev_bill e = scenarioA
               \<and> ev_dayOfMonth e = min (max (intOf (Finite 31)) 1) (daysInMonth (year february2023) (month february2023))
               \<and> (ev_status e = ChipPaid) = (paidForMonth scenarioA = Some (getYYYYMM february2023))
               \<and> eventsByDay compareByLength noDecimals february2023 march10 [scenarioA] = [ev_dayOfMonth e \<mapsto> [e]]"
    using monthly_event_clamped [OF february_valid(1,2) a(1), of noDecimals march10 compareByLength] a(2,3)
    by blast
  moreover have "min (max (intOf (Finite 31)) 1) (daysInMonth (year february2023) (month february2023)) = 28"
    unfolding february2023_def daysInMonth_def isLeap_def by simp
  ultimately have y23: "\<exists>e. billEvent noDecimals february2023 (startOfDay march10) scenarioA = Some e
          \<and> ev_dayOfMonth e = 28 \<and> ev_status e \<noteq> ChipPaid
          \<and> eventsByDay compareByLength noDecimals february2023 march10 [scenarioA] = [28 \<mapsto> [e]]"
    using a(4) by auto
  have "\<exists>e. billEvent noDecimals february2024 (startOfDay march10) scenarioA = Some e \<and> ev_bill e = scenarioA
               \<and> ev_dayOfMonth e = min (max (intOf (Finite 31)) 1) (daysInMonth (year february2024) (month february2024))
               \<and> (ev_status e = ChipPaid) = (paidForMonth scenarioA = Some (getYYYYMM february2024))
               \<and> eventsByDay compareByLength noDecimals february2024 march10 [scenarioA] = [ev_dayOfMonth e \<mapsto> [e]]"
    using monthly_event_clamped [OF february_valid(3,4) a(1), of noDecimals march10 compareByLength] a(2,3)
    by blast
  moreover have "min (max (intOf (Finite 31)) 1) (daysInMonth (year february2024) (month february2024)) = 29"
    unfolding february2024_def daysInMonth_def isLeap_def by simp
  ultimately have y24: "\<exists>e. billEvent noDecimals february2024 (startOfDay march10) scenarioA = Some e
          \<and> ev_dayOfMonth e = 29
          \<and> eventsByDay compareByLength noDecimals february2024 march10 [scenarioA] = [29 \<mapsto> [e]]"
    by auto
  show ?thesis using february_valid(1,2) a(1,2,3) y23 y24 by simp
qed

text \<open>
  C4, as it is stated, gives every monthly bill an event. A monthly bill without a day
  of the month has none.
\<close>

theorem monthly_event_counterexample:
  "recurrence (scenarioA\<lparr>dayOfMonth := None\<rparr>) = Some Monthly
   \<and> billEvent noDecimals february2023 (startOfDay march10) (scenarioA\<lparr>dayOfMonth := None\<rparr>) = None
   \<and> eventsByDay compareByLength noDecimals february2023 march10 [scenarioA\<lparr>dayOfMonth := None\<rparr>] 28 = None"
proof -
  have n: "billEvent noDecimals february2023 (startOfDay march10) (scenarioA\<lparr>dayOfMonth := None\<rparr>) = None"
    unfolding billEvent_def Let_def getRecurringDueDateInViewedMonth_def scenarioA_def by simp
  then show ?thesis
    unfolding eventsByDay_char eventsOfBills_def eventsOnDay_def
    by (simp add: map_filter_simps scenarioA_def)
qed

section \<open>No overdue chip in a future month\<close>

lemma billEvent_future:
  assumes "isMonthInFuture (getFullYear v) (getMonth v) (getFullYear (startOfDay now)) (getMonth (startOfDay now))"
    and "billEvent tf v (startOfDay now) b = Some e"
  shows "ev_status e \<noteq> ChipOverdue"
proof (cases "recurrence b = Some Monthly")
  case True
  then show ?thesis using assms unfolding billEvent_def Let_def
    by (auto split: option.splits if_splits)
next
  case False
  then obtain due where due: "parseYYYYMMDD (the (dueDate b)) = Some due"
    "getFullYear due = getFullYear v" "getMonth due = getMonth v"
    using assms(2) unfolding billEvent_def Let_def by (auto split: option.splits if_splits)
  have v: "valid_date due" "\<not> (0 \<le> year due \<and> year due \<le> 99)"
    using parse_valid [OF due(1)] by simp_all
  have "date_before (startOfDay now) due"
    using assms(1) due(2,3) unfolding isMonthInFuture_def date_before_def getFullYear_def getMonth_def
    by auto
  then have "getTime (startOfDay now) < getTime due"
    using getTime_less_iff [OF startOfDay_valid v(1), of now] by simp
  then have "\<not> getTime (startOfDay due) < getTime (startOfDay now)"
    using startOfDay_id [OF v] by simp
  then show ?thesis using False assms(2) due unfolding billEvent_def Let_def
    by (auto split: option.splits if_splits)
qed

text \<open>
  C5. When the viewed month is after the month of today, no event of the calendar, of a
  monthly or of a one-time bill, has the status overdue.
\<close>

theorem future_month_no_overdue:
  assumes "isMonthInFuture (getFullYear v) (getMonth v) (getFullYear (startOfDay now)) (getMonth (startOfDay now))"
  shows "\<forall>d es. eventsByDay lc toFixed2 v now bills d = Some es \<longrightarrow> (\<forall>e \<in> set es. ev_status e \<noteq> ChipOverdue)"
proof (intro allI impI ballI)
  fix d es e
  assume "eventsByDay lc toFixed2 v now bills d = Some es" "e \<in> set es"
  then obtain b where "billEvent toFixed2 v (startOfDay now) b = Some e"
    using eventsByDay_mem by blast
  with assms show "ev_status e \<noteq> ChipOverdue" by (rule billEvent_future)
qed

theorem future_month_no_overdue_witness:
  "isMonthInFuture (getFullYear april2024) (getMonth april2024)
     (getFullYear (startOfDay march10)) (getMonth (startOfDay march10))
   \<and> (\<exists>e. eventsByDay compareByLength noDecimals april2024 march10 [scenarioD] 1 = Some [e]
          \<and> ev_status e = ChipUnpaid)"
proof -
  have t: "startOfDay march10 = march10" using march10_valid by (rule startOfDay_id)
  have f: "isMonthInFuture (getFullYear april2024) (getMonth april2024)
     (getFullYear (startOfDay march10)) (getMonth (startOfDay march10))"
    unfolding t by (simp add: isMonthInFuture_def getFullYear_def getMonth_def april2024_def march10_def)
  have d: "recurrence scenarioD = Some Monthly" "dayOfMonth scenarioD = Some (Finite 1)"
    "isInteger (Finite 1)" "0 \<le> month april2024" "month april2024 \<le> 11"
    "paidForMonth scenarioD = None"
    unfolding scenarioD_def april2024_def by simp_all
  obtain e where e: "billEvent noDecimals april2024 (startOfDay march10) scenarioD = Some e"
    "ev_dayOfMonth e = min (max (intOf (Finite 1)) 1) (daysInMonth (toFullYear (year april2024)) (month april2024))"
    "(ev_status e = ChipPaid) = (paidForMonth scenarioD = Some (getYYYYMM april2024))"
    using billEvent_monthly [OF d(1,2,3,4,5), of noDecimals "startOfDay march10"] by blast
  have day: "ev_dayOfMonth e = 1" unfolding e(2) by (simp add: daysInMonth_def)
  have m: "eventsByDay compareByLength noDecimals april2024 march10 [scenarioD] 1 = Some [e]"
    unfolding eventsByDay_char eventsOfBills_def eventsOnDay_def
    by (simp add: map_filter_simps e(1) day sortBy_single)
  have "ev_status e \<noteq> ChipOverdue"
    using future_month_no_overdue [OF f, of compareByLength noDecimals "[scenarioD]"] m by auto
  moreover have "ev_status e \<noteq> ChipPaid" using e(3) d(6) by simp
  ultimately have "ev_status e = ChipUnpaid" by (cases "ev_status e") simp_all
  then show ?thesis using f m by blast
qed

section \<open>The manual toggle\<close>












section \<open>The sorted bill view\<close>
















section \<open>The autopay scan\<close>

lemma not_after_today:
  assumes "valid_date now" "valid_date due" "\<not> (0 \<le> year due \<and> year due \<le> 99)"
  shows "(getTime (startOfDay due) > getTime (todayStart now)) = date_before (todayStart now) due"
  using getTime_less_iff [of "todayStart now" due] assms startOfDay_id [of due] startOfDay_valid [of now]
  unfolding todayStart_def by simp

lemma autopayTarget_char:
  assumes "valid_date now"
  shows "autopayTarget now b =
           (if autopayEligible now b then Some (autopayKey now b, settlement now b) else None)"
proof (cases "resolveDueDate now b")
  case None
  then show ?thesis
    unfolding autopayTarget_def autopayEligible_def resolveDueDate_def
    by (auto split: if_splits)
next
  case (Some due)
  have t: "(getTime (startOfDay due) > getTime (todayStart now)) = date_before (todayStart now) due"
    using not_after_today [OF assms] resolveDueDate_valid [OF assms Some] by simp
  have u: "(getDerivedStatus (currentYYYYMM now) b = Unpaid) =
             (if recurrence b = Some Monthly then paidForMonth b \<noteq> Some (currentYYYYMM now)
              else status b \<noteq> Paid)"
    unfolding getDerivedStatus_def by (cases "status b") simp_all
  show ?thesis
  proof (cases "recurrence b = Some Monthly")
    case True
    then have "getRecurringDueDateInCurrentMonth now (dayOfMonth b) = Some due"
      using Some unfolding resolveDueDate_def by simp
    then show ?thesis using True Some t
      unfolding autopayTarget_def autopayEligible_def u autopayKey_def settlement_def by simp
  next
    case False
    then have "truthy (dueDate b)" "parseYYYYMMDD (the (dueDate b)) = Some due"
      using Some unfolding resolveDueDate_def by (simp_all split: if_splits)
    then show ?thesis using False Some t
      unfolding autopayTarget_def autopayEligible_def u autopayKey_def settlement_def by simp
  qed
qed

lemma runAutopay_keys: "processedKeys (runAutopay now fam bills s) = processedKeys s"
  by (induction bills) (auto split: option.splits)

lemma runAutopay_cases:
  obtains (idle) "runAutopay now fam bills s = s"
      "\<forall>b \<in> set bills. \<forall>t. autopayTarget now b = Some t \<longrightarrow> fst t \<in> processedKeys s"
  | (waits) pre b bs t where "bills = pre @ b # bs" "autopayTarget now b = Some t"
      "fst t \<notin> processedKeys s"
      "\<forall>b' \<in> set pre. \<forall>t'. autopayTarget now b' = Some t' \<longrightarrow> fst t' \<in> processedKeys s"
      "runAutopay now fam bills s =
         s\<lparr>attempts := attempts s @ [\<lparr>at_key = fst t, at_ref = (fam, billId b), at_fields = snd t\<rparr>],
           inFlight := inFlight s @ [\<lparr>ps_now = now, ps_familyId = fam, ps_key = fst t, ps_rest = bs,
                                     ps_cancelled = False\<rparr>]\<rparr>"
proof (induction bills arbitrary: thesis)
  case Nil
  show ?case by (rule Nil(1)) simp_all
next
  case (Cons b bs)
  show ?case
  proof (cases "autopayTarget now b")
    case None
    show ?thesis
    proof (rule Cons.IH)
      assume "runAutopay now fam bs s = s"
        "\<forall>b \<in> set bs. \<forall>t. autopayTarget now b = Some t \<longrightarrow> fst t \<in> processedKeys s"
      then show ?thesis using None by (intro Cons.prems(1)) simp_all
    next
      fix pre b' bs' t
      assume "bs = pre @ b' # bs'" "autopayTarget now b' = Some t" "fst t \<notin> processedKeys s"
        "\<forall>b' \<in> set pre. \<forall>t'. autopayTarget now b' = Some t' \<longrightarrow> fst t' \<in> processedKeys s"
        "runAutopay now fam bs s =
         s\<lparr>attempts := attempts s @ [\<lparr>at_key = fst t, at_ref = (fam, billId b'), at_fields = snd t\<rparr>],
           inFlight := inFlight s @ [\<lparr>ps_now = now, ps_familyId = fam, ps_key = fst t, ps_rest = bs',
                                     ps_cancelled = False\<rparr>]\<rparr>"
      then show ?thesis using None
        by (intro Cons.prems(2) [of "b # pre" b' bs' t]) simp_all
    qed
  next
    case (Some t)
    show ?thesis
    proof (cases "fst t \<in> processedKeys s")
      case True
      show ?thesis
      proof (rule Cons.IH)
        assume "runAutopay now fam bs s = s"
          "\<forall>b \<in> set bs. \<forall>t. autopayTarget now b = Some t \<longrightarrow> fst t \<in> processedKeys s"
        then show ?thesis using Some True by (intro Cons.prems(1)) auto
      next
        fix pre b' bs' t'
        assume "bs = pre @ b' # bs'" "autopayTarget now b' = Some t'" "fst t' \<notin> processedKeys s"
          "\<forall>b' \<in> set pre. \<forall>t'. autopayTarget now b' = Some t' \<longrightarrow> fst t' \<in> processedKeys s"
          "runAutopay now fam bs s =
           s\<lparr>attempts := attempts s @ [\<lparr>at_key = fst t', at_ref = (fam, billId b'), at_fields = snd t'\<rparr>],
             inFlight := inFlight s @ [\<lparr>ps_now = now, ps_familyId = fam, ps_key = fst t', ps_rest = bs',
                                       ps_cancelled = False\<rparr>]\<rparr>"
        then show ?thesis using Some True
          by (intro Cons.prems(2) [of "b # pre" b' bs' t']) auto
      qed
    next
      case False
      show ?thesis
        using Some False by (intro Cons.prems(2) [of "[]" b bs t]) simp_all
    qed
  qed
qed

lemma runAutopay_nothing_to_do:
  assumes "\<forall>b \<in> set bills. \<forall>t. autopayTarget now b = Some t \<longrightarrow> fst t \<in> processedKeys s"
  shows "runAutopay now fam bills s = s"
  using assms by (induction bills) (auto split: option.splits)

text \<open>
  What one stretch of the scan does: nothing, or one write, for a bill of its list that
  is eligible, under the key of that bill, which is not processed; no key is marked.
\<close>

lemma runAutopay_attempt:
  assumes "valid_date now"
  shows "\<exists>new. attempts (runAutopay now fam bills s) = attempts s @ new \<and> length new \<le> 1
      \<and> processedKeys (runAutopay now fam bills s) = processedKeys s
      \<and> (\<forall>a \<in> set new. at_key a \<notin> processedKeys s
            \<and> (\<exists>b \<in> set bills. autopayEligible now b \<and> at_key a = autopayKey now b
                  \<and> at_ref a = (fam, billId b) \<and> at_fields a = settlement now b))"
proof (cases rule: runAutopay_cases [of now fam bills s])
  case idle
  then show ?thesis by (intro exI [of _ "[]"]) simp
next
  case (waits pre b bs t)
  have "autopayEligible now b \<and> fst t = autopayKey now b \<and> snd t = settlement now b"
    using waits(2) unfolding autopayTarget_char [OF assms] by (auto split: if_splits)
  then show ?thesis using waits
    by (intro exI [of _ "[\<lparr>at_key = fst t, at_ref = (fam, billId b), at_fields = snd t\<rparr>]"]) auto
qed

text \<open>Whether the write succeeded makes no difference, and its key is marked.\<close>

lemma settleWrite_outcome: "settleWrite i True s = settleWrite i False s"
  unfolding settleWrite_def by simp

lemma settleWrite_marks:
  assumes "i < length (inFlight s)"
  shows "ps_key (inFlight s ! i) \<in> processedKeys (settleWrite i ok s)"
  using assms unfolding settleWrite_def Let_def by (simp add: runAutopay_keys)

text \<open>Every step keeps the marked keys and attempts only keys that are not marked.\<close>

lemma runAutopay_new:
  "\<exists>new. attempts (runAutopay now fam bills s) = attempts s @ new
      \<and> (\<forall>a \<in> set new. at_key a \<notin> processedKeys s)"
proof (cases rule: runAutopay_cases [of now fam bills s])
  case idle
  then show ?thesis by (intro exI [of _ "[]"]) simp
next
  case (waits pre b bs t)
  then show ?thesis
    by (intro exI [of _ "[\<lparr>at_key = fst t, at_ref = (fam, billId b), at_fields = snd t\<rparr>]"]) simp
qed

lemma sessionStep_grows:
  "\<exists>new. attempts (sessionStep fam s ev) = attempts s @ new
      \<and> (\<forall>a \<in> set new. at_key a \<notin> processedKeys s)
      \<and> processedKeys s \<subseteq> processedKeys (sessionStep fam s ev)"
proof (cases ev)
  case (BillsChanged now bills)
  let ?s' = "s\<lparr>inFlight := map (\<lambda>p. p\<lparr>ps_cancelled := True\<rparr>) (inFlight s)\<rparr>"
  show ?thesis
  proof (cases "\<not> truthy fam \<or> bills = []")
    case True
    then show ?thesis unfolding BillsChanged sessionStep_def autopayEffect_def Let_def
      by (intro exI [of _ "[]"]) auto
  next
    case False
    then have e: "sessionStep fam s ev = runAutopay now (the fam) bills ?s'"
      unfolding BillsChanged sessionStep_def autopayEffect_def Let_def by simp
    obtain new where "attempts (runAutopay now (the fam) bills ?s') = attempts ?s' @ new"
      "\<forall>a \<in> set new. at_key a \<notin> processedKeys ?s'"
      using runAutopay_new [of now "the fam" bills ?s'] by blast
    then show ?thesis unfolding e by (intro exI [of _ new]) (simp add: runAutopay_keys)
  qed
next
  case (WriteSettled i ok)
  show ?thesis
  proof (cases "i < length (inFlight s)")
    case False
    then show ?thesis unfolding WriteSettled sessionStep_def settleWrite_def
      by (intro exI [of _ "[]"]) simp
  next
    case True
    let ?p = "inFlight s ! i"
    let ?s' = "s\<lparr>processedKeys := insert (ps_key ?p) (processedKeys s),
                    inFlight := take i (inFlight s) @ drop (Suc i) (inFlight s)\<rparr>"
    show ?thesis
    proof (cases "ps_cancelled ?p")
      case c: True
      then show ?thesis using True unfolding WriteSettled sessionStep_def settleWrite_def Let_def
        by (intro exI [of _ "[]"]) auto
    next
      case c: False
      then have e: "sessionStep fam s ev = runAutopay (ps_now ?p) (ps_familyId ?p) (ps_rest ?p) ?s'"
        using True unfolding WriteSettled sessionStep_def settleWrite_def Let_def by simp
      obtain new where "attempts (runAutopay (ps_now ?p) (ps_familyId ?p) (ps_rest ?p) ?s') = attempts ?s' @ new"
        "\<forall>a \<in> set new. at_key a \<notin> processedKeys ?s'"
        using runAutopay_new [of "ps_now ?p" "ps_familyId ?p" "ps_rest ?p" ?s'] by blast
      then show ?thesis unfolding e by (intro exI [of _ new]) (auto simp: runAutopay_keys)
    qed
  qed
qed

text \<open>
  So a key that is marked is never attempted again in the session, whatever happens
  later: a write that has settled, with success or not, is not retried.
\<close>

lemma marked_key_not_retried:
  "\<exists>new. attempts (foldl (sessionStep fam) s evs) = attempts s @ new
      \<and> (\<forall>a \<in> set new. at_key a \<notin> processedKeys s)
      \<and> processedKeys s \<subseteq> processedKeys (foldl (sessionStep fam) s evs)"
proof (induction evs arbitrary: s)
  case Nil
  show ?case by simp
next
  case (Cons ev evs)
  obtain n1 where n1: "attempts (sessionStep fam s ev) = attempts s @ n1"
    "\<forall>a \<in> set n1. at_key a \<notin> processedKeys s"
    "processedKeys s \<subseteq> processedKeys (sessionStep fam s ev)"
    using sessionStep_grows [of fam s ev] by blast
  obtain n2 where n2: "attempts (foldl (sessionStep fam) (sessionStep fam s ev) evs)
        = attempts (sessionStep fam s ev) @ n2"
    "\<forall>a \<in> set n2. at_key a \<notin> processedKeys (sessionStep fam s ev)"
    "processedKeys (sessionStep fam s ev) \<subseteq> processedKeys (foldl (sessionStep fam) (sessionStep fam s ev) evs)"
    using Cons.IH [of "sessionStep fam s ev"] by blast
  show ?case unfolding foldl_Cons n2(1) n1(1) using n1 n2
    by (intro exI [of _ "n1 @ n2"]) auto
qed

text \<open>
  When scans do not overlap, at most one scan waits, and the keys of the attempts are
  distinct: each of them is marked or is the key the waiting scan will mark.
\<close>

lemma runAutopay_quiet:
  assumes "inFlight s = []" "distinct (map at_key (attempts s))"
    "set (map at_key (attempts s)) \<subseteq> processedKeys s"
  shows "distinct (map at_key (attempts (runAutopay now fam bills s)))
     \<and> set (map at_key (attempts (runAutopay now fam bills s)))
          \<subseteq> processedKeys (runAutopay now fam bills s) \<union> set (map ps_key (inFlight (runAutopay now fam bills s)))
     \<and> length (inFlight (runAutopay now fam bills s)) \<le> 1"
proof (cases rule: runAutopay_cases [of now fam bills s])
  case idle
  then show ?thesis using assms by auto
next
  case (waits pre b bs t)
  then show ?thesis using assms by auto
qed

lemma sessionStep_quiet:
  assumes "distinct (map at_key (attempts s))"
    "set (map at_key (attempts s)) \<subseteq> processedKeys s \<union> set (map ps_key (inFlight s))"
    "length (inFlight s) \<le> 1"
    "case ev of BillsChanged now bills \<Rightarrow> inFlight s = [] | WriteSettled i ok \<Rightarrow> True"
  shows "distinct (map at_key (attempts (sessionStep fam s ev)))
     \<and> set (map at_key (attempts (sessionStep fam s ev)))
          \<subseteq> processedKeys (sessionStep fam s ev) \<union> set (map ps_key (inFlight (sessionStep fam s ev)))
     \<and> length (inFlight (sessionStep fam s ev)) \<le> 1"
proof (cases ev)
  case (BillsChanged now bills)
  then have q: "inFlight s = []" using assms(4) by simp
  then have s': "s\<lparr>inFlight := map (\<lambda>p. p\<lparr>ps_cancelled := True\<rparr>) (inFlight s)\<rparr> = s" by simp
  show ?thesis
  proof (cases "\<not> truthy fam \<or> bills = []")
    case True
    then show ?thesis using assms(1,2,3)
      unfolding BillsChanged sessionStep_def autopayEffect_def Let_def s' by auto
  next
    case False
    then have e: "sessionStep fam s ev = runAutopay now (the fam) bills s"
      unfolding BillsChanged sessionStep_def autopayEffect_def Let_def s' by simp
    show ?thesis unfolding e using runAutopay_quiet [OF q assms(1)] assms(2) q by simp
  qed
next
  case (WriteSettled i ok)
  show ?thesis
  proof (cases "i < length (inFlight s)")
    case False
    then show ?thesis using assms(1,2,3) unfolding WriteSettled sessionStep_def settleWrite_def by simp
  next
    case True
    then have i0: "i = 0" and one: "length (inFlight s) = 1" using assms(3) by simp_all
    then obtain p where p: "inFlight s = [p]" by (cases "inFlight s") simp_all
    let ?s' = "s\<lparr>processedKeys := insert (ps_key p) (processedKeys s), inFlight := []\<rparr>"
    have q: "inFlight ?s' = []" "distinct (map at_key (attempts ?s'))"
      "set (map at_key (attempts ?s')) \<subseteq> processedKeys ?s'"
      using assms(1,2) p by auto
    show ?thesis
    proof (cases "ps_cancelled p")
      case c: True
      then have "sessionStep fam s ev = ?s'"
        unfolding WriteSettled sessionStep_def settleWrite_def Let_def i0 p by simp
      then show ?thesis using q by simp
    next
      case c: False
      then have "sessionStep fam s ev = runAutopay (ps_now p) (ps_familyId p) (ps_rest p) ?s'"
        unfolding WriteSettled sessionStep_def settleWrite_def Let_def i0 p by simp
      then show ?thesis using runAutopay_quiet [OF q] by simp
    qed
  qed
qed

lemma quiet_session:
  assumes "scansDoNotOverlap fam s evs" "distinct (map at_key (attempts s))"
    "set (map at_key (attempts s)) \<subseteq> processedKeys s \<union> set (map ps_key (inFlight s))"
    "length (inFlight s) \<le> 1"
  shows "distinct (map at_key (attempts (foldl (sessionStep fam) s evs)))"
  using assms
proof (induction evs arbitrary: s)
  case Nil
  then show ?case by simp
next
  case (Cons ev evs)
  have c: "case ev of BillsChanged now bills \<Rightarrow> inFlight s = [] | WriteSettled i ok \<Rightarrow> True"
    "scansDoNotOverlap fam (sessionStep fam s ev) evs"
    using Cons.prems(1) by simp_all
  have "distinct (map at_key (attempts (sessionStep fam s ev)))
     \<and> set (map at_key (attempts (sessionStep fam s ev)))
          \<subseteq> processedKeys (sessionStep fam s ev) \<union> set (map ps_key (inFlight (sessionStep fam s ev)))
     \<and> length (inFlight (sessionStep fam s ev)) \<le> 1"
    using sessionStep_quiet [OF Cons.prems(2,3,4) c(1)] .
  then show ?case using Cons.IH [OF c(2)] by simp
qed

lemma nonoverlapping_at_most_once:
  "scansDoNotOverlap fam sessionStart evs \<Longrightarrow> distinct (map at_key (attempts (runSession fam evs)))"
  unfolding runSession_def by (rule quiet_session) (simp_all add: sessionStart_def)

text \<open>
  A scan that has run to its end, each of its writes settled, has marked the key of every
  eligible bill of its list; the scan run again on the same list with the same clock
  does nothing.
\<close>

lemma settle_idle:
  "inFlight s = [] \<Longrightarrow> foldl (sessionStep fam) s (map (WriteSettled 0) oks) = s"
  by (induction oks) (simp_all add: sessionStep_def settleWrite_def)

lemma scan_to_end:
  assumes "inFlight s = []" "length bills \<le> length oks"
  shows "inFlight (foldl (sessionStep fam) (runAutopay now f bills s) (map (WriteSettled 0) oks)) = []
     \<and> processedKeys s \<subseteq> processedKeys (foldl (sessionStep fam) (runAutopay now f bills s) (map (WriteSettled 0) oks))
     \<and> (\<forall>b \<in> set bills. \<forall>t. autopayTarget now b = Some t \<longrightarrow>
           fst t \<in> processedKeys (foldl (sessionStep fam) (runAutopay now f bills s) (map (WriteSettled 0) oks)))"
  using assms
proof (induction bills arbitrary: s oks)
  case Nil
  then show ?case by (simp add: settle_idle)
next
  case (Cons b bs)
  have len: "length bs \<le> length oks" using Cons.prems(2) by simp
  show ?case
  proof (cases "autopayTarget now b")
    case None
    then show ?thesis using Cons.IH [OF Cons.prems(1) len] by simp
  next
    case (Some t)
    show ?thesis
    proof (cases "fst t \<in> processedKeys s")
      case True
      then show ?thesis using Some Cons.IH [OF Cons.prems(1) len] by auto
    next
      case False
      obtain ok oks' where oks: "oks = ok # oks'" using Cons.prems(2) by (cases oks) simp_all
      let ?w = "s\<lparr>attempts := attempts s @
                  [\<lparr>at_key = fst t, at_ref = (f, billId b), at_fields = snd t\<rparr>],
              inFlight := inFlight s @
                  [\<lparr>ps_now = now, ps_familyId = f, ps_key = fst t, ps_rest = bs,
                    ps_cancelled = False\<rparr>]\<rparr>"
      let ?s' = "s\<lparr>attempts := attempts s @
                  [\<lparr>at_key = fst t, at_ref = (f, billId b), at_fields = snd t\<rparr>],
              processedKeys := insert (fst t) (processedKeys s), inFlight := []\<rparr>"
      have r: "runAutopay now f (b # bs) s = ?w" using Some False by simp
      have st: "sessionStep fam ?w (WriteSettled 0 ok) = runAutopay now f bs ?s'"
        unfolding sessionStep_def settleWrite_def Let_def using Cons.prems(1) by simp
      have q: "inFlight ?s' = []" "length bs \<le> length oks'"
        using Cons.prems oks by simp_all
      show ?thesis unfolding r oks using Cons.IH [OF q] Some
        by (auto simp: st)
    qed
  qed
qed

lemma finished_scan_rescan:
  assumes "inFlight s = []" "length bills \<le> length oks"
  shows "sessionStep fam
           (foldl (sessionStep fam) s (BillsChanged now bills # map (WriteSettled 0) oks))
           (BillsChanged now bills)
         = foldl (sessionStep fam) s (BillsChanged now bills # map (WriteSettled 0) oks)"
proof (cases "\<not> truthy fam \<or> bills = []")
  case True
  then have "sessionStep fam s (BillsChanged now bills) = s"
    using assms(1) unfolding sessionStep_def autopayEffect_def Let_def by auto
  then show ?thesis using True assms(1)
    by (auto simp: settle_idle sessionStep_def autopayEffect_def Let_def)
next
  case False
  have s': "s\<lparr>inFlight := map (\<lambda>p. p\<lparr>ps_cancelled := True\<rparr>) (inFlight s)\<rparr> = s"
    using assms(1) by simp
  let ?e = "foldl (sessionStep fam) (runAutopay now (the fam) bills s) (map (WriteSettled 0) oks)"
  have e: "foldl (sessionStep fam) s (BillsChanged now bills # map (WriteSettled 0) oks) = ?e"
    using False unfolding foldl_Cons sessionStep_def autopayEffect_def Let_def s' by simp
  have d: "inFlight ?e = []"
    "\<forall>b \<in> set bills. \<forall>t. autopayTarget now b = Some t \<longrightarrow> fst t \<in> processedKeys ?e"
    using scan_to_end [OF assms, of fam now "the fam"] by simp_all
  have "?e\<lparr>inFlight := map (\<lambda>p. p\<lparr>ps_cancelled := True\<rparr>) (inFlight ?e)\<rparr> = ?e"
    using d(1) by simp
  then have "sessionStep fam ?e (BillsChanged now bills) = runAutopay now (the fam) bills ?e"
    using False unfolding sessionStep_def autopayEffect_def Let_def by simp
  then show ?thesis unfolding e using runAutopay_nothing_to_do [OF d(2)] by simp
qed

lemma april5_today: "todayStart april5 = april5"
  unfolding todayStart_def using april5_valid by (rule startOfDay_id)

lemma scenarioD_target:
  "autopayTarget april5 scenarioD
      = Some (''d:2024-04'', [(''paidForMonth'', JString ''2024-04''), (''updatedAt'', serverTimestamp)])"
proof -
  have c: "currentYYYYMM april5 = ''2024-04''" by (simp add: eval_str april5_def)
  have "getRecurringDueDateInCurrentMonth april5 (Some (Finite 1))
          = Some \<lparr>year = 2024, month = 3, day = 1\<rparr>"
    using recurring_current [OF april5_valid(1), of "Finite 1"]
    by (simp add: april5_def toFullYear_def daysInMonth_def)
  then have r: "resolveDueDate april5 scenarioD = Some \<lparr>year = 2024, month = 3, day = 1\<rparr>"
    unfolding resolveDueDate_def scenarioD_def by simp
  have el: "autopayEligible april5 scenarioD"
    unfolding autopayEligible_def r april5_today c
    by (simp add: scenarioD_def getDerivedStatus_def date_before_def april5_def)
  show ?thesis
    unfolding autopayTarget_char [OF april5_valid(1)] autopayKey_def settlement_def c
    using el by (simp add: scenarioD_def)
qed

text \<open>
  C1. The code marks a key only when the write under it has settled. Scenario D, with the
  clock at 2024-04-05: the bill list arrives, the scan issues the write for the key
  "d:2024-04" and waits; the bill list arrives again with the bill unchanged before that
  write has settled; the new scan finds the key unmarked and issues a second write under
  the same key. When the first write settles before the list arrives again, there is
  one attempt only.
\<close>

theorem autopay_overlap_two_attempts:
  "map at_key (attempts (runSession (Some ''fam'')
      [BillsChanged april5 [scenarioD], BillsChanged april5 [scenarioD]]))
     = [''d:2024-04'', ''d:2024-04'']
   \<and> map at_key (attempts (runSession (Some ''fam'')
      [BillsChanged april5 [scenarioD], WriteSettled 0 False, BillsChanged april5 [scenarioD]]))
     = [''d:2024-04'']"
proof -
  have bid: "billId scenarioD = ''d''" unfolding scenarioD_def by simp
  show ?thesis
    unfolding runSession_def sessionStart_def
    by (simp add: sessionStep_def autopayEffect_def settleWrite_def Let_def truthy_def
          scenarioD_target bid)
qed

end
